theory Spec2Isabelle
  imports Complex_Main
begin

section \<open>The letter-puzzle board generator (01-LetterPuzzleMaker/index.js)\<close>

subsection \<open>Values and the board object\<close>

text \<open>
  The only exception the generator can raise is the JavaScript \<open>TypeError\<close> of reading or
  writing a property of \<open>undefined\<close>.
\<close>

datatype error = TypeError

text \<open>
  A tile or an indexed character is a one-character string or \<open>undefined\<close>: \<open>Some ch\<close> is
  the string of the single UTF-16 unit \<open>ch\<close>, \<open>None\<close> is \<open>undefined\<close> (an index out of range,
  or a hole left in an array that a write extended). The empty tile is the string \<open>"."\<close>.
\<close>

abbreviation EMPTY :: "char option" where
  "EMPTY \<equiv> Some CHR ''.''"

text \<open>
  \<open>class Board\<close>: the fields \<open>size\<close>, \<open>tiles\<close> (an array of rows) and \<open>totalPlacements\<close>.
  Sizes, coordinates and counters are the non-negative integers the code counts with.
\<close>

record board =
  size_b :: nat
  tiles :: "char option list list"
  totalPlacements :: nat

text \<open>\<open>xs[i]\<close> on an array or a string: \<open>undefined\<close> out of range.\<close>

definition index :: "'a list \<Rightarrow> int \<Rightarrow> 'a option" where
  "index xs i = (if 0 \<le> i \<and> i < int (length xs) then Some (xs ! nat i) else None)"

text \<open>
  \<open>this.tiles[r][c]\<close>: reading a column of a row that does not exist raises \<open>TypeError\<close>;
  a column out of range of an existing row (or a hole) reads as \<open>undefined\<close>.
\<close>

definition tile_at :: "char option list list \<Rightarrow> nat \<Rightarrow> nat \<Rightarrow> error + char option" where
  "tile_at t r c =
     (if r < length t
      then Inr (if c < length (t ! r) then t ! r ! c else None)
      else Inl TypeError)"

text \<open>
  \<open>row[c] = v\<close>: JavaScript extends the array when \<open>c\<close> is past its end, leaving holes
  between the old end and \<open>c\<close>.
\<close>

definition write_at :: "char option list \<Rightarrow> nat \<Rightarrow> char option \<Rightarrow> char option list" where
  "write_at row c v =
     (if c < length row then row[c := v]
      else row @ replicate (c - length row) None @ [v])"

text \<open>\<open>this.tiles[r][c] = v\<close>: raises \<open>TypeError\<close> when row \<open>r\<close> does not exist.\<close>

definition set_tile ::
  "char option list list \<Rightarrow> nat \<Rightarrow> nat \<Rightarrow> char option \<Rightarrow> error + char option list list" where
  "set_tile t r c v =
     (if r < length t then Inr (t[r := write_at (t ! r) c v]) else Inl TypeError)"

definition getDeltas :: "bool \<Rightarrow> nat \<times> nat" where
  "getDeltas horizontal = (if horizontal then (0, 1) else (1, 0))"

text \<open>\<open>word[i]\<close> for a natural index.\<close>

definition letter :: "string \<Rightarrow> nat \<Rightarrow> char option" where
  "letter word i = (if i < length word then Some (word ! i) else None)"

definition getWordMask ::
  "board \<Rightarrow> bool \<Rightarrow> nat \<Rightarrow> nat \<Rightarrow> string \<Rightarrow> nat \<Rightarrow> nat \<Rightarrow> error + char option" where
  "getWordMask b horizontal r c word searchRow searchColumn =
     (if horizontal then
        (if searchRow \<noteq> r \<or> searchColumn < c \<or> searchColumn \<ge> c + length word
         then tile_at (tiles b) searchRow searchColumn
         else Inr (letter word (searchColumn - c)))
      else
        (if searchColumn \<noteq> c \<or> searchRow < r \<or> searchRow \<ge> r + length word
         then tile_at (tiles b) searchRow searchColumn
         else Inr (letter word (searchRow - r))))"

subsection \<open>The lexicon\<close>

text \<open>
  \<open>WORDS\<close> is the array parsed from the word file; it is a parameter of every function that
  reads it. \<open>WORD_SET = new Set(WORDS)\<close>, and \<open>WORD_SET.has(s)\<close> is membership.
\<close>

definition WORD_SET :: "string list \<Rightarrow> string set" where
  "WORD_SET WORDS = set WORDS"

subsection \<open>The placement validator\<close>

text \<open>
  The first loop of \<open>isValidPlacement\<close>. The result \<open>Inr None\<close> is the early
  \<open>return false\<close>; \<open>Inr (Some (overlaps, standalone))\<close> are the counters when the loop ends.
\<close>

function scan_loop ::
  "board \<Rightarrow> nat \<times> nat \<Rightarrow> nat \<Rightarrow> nat \<Rightarrow> string \<Rightarrow> nat \<Rightarrow> nat \<Rightarrow> nat \<Rightarrow> error + (nat \<times> nat) option" where
  "scan_loop b d r c word i overlaps standalone =
     (if i < length word then
        (case tile_at (tiles b) (r + fst d * i) (c + snd d * i) of
           Inl e \<Rightarrow> Inl e
         | Inr boardTile \<Rightarrow>
             if boardTile \<noteq> EMPTY then
               (if boardTile \<noteq> letter word i then Inr None
                else scan_loop b d r c word (i + 1) (overlaps + 1) standalone)
             else scan_loop b d r c word (i + 1) overlaps (standalone + 1))
      else Inr (Some (overlaps, standalone)))"
  by pat_completeness auto
termination
  by (relation "measure (\<lambda>(b, d, r, c, word, i, overlaps, standalone). length word - i)") auto

declare scan_loop.simps [simp del]

text \<open>\<open>acc += char\<close>: string concatenation turns \<open>undefined\<close> into the text "undefined".\<close>

definition to_str :: "char option \<Rightarrow> string" where
  "to_str v = (case v of None \<Rightarrow> ''undefined'' | Some ch \<Rightarrow> [ch])"

text \<open>
  The innermost loop over \<open>sc\<close>, with the accumulated run \<open>acc\<close>. \<open>Inr None\<close> is the
  \<open>return false\<close> inside the loop; \<open>Inr (Some acc)\<close> hands the last run to the check after it.
\<close>

function sc_loop ::
  "string list \<Rightarrow> board \<Rightarrow> bool \<Rightarrow> nat \<Rightarrow> nat \<Rightarrow> string \<Rightarrow> bool \<Rightarrow> nat \<Rightarrow> nat \<Rightarrow> string
     \<Rightarrow> error + string option" where
  "sc_loop WORDS b horizontal r c word flip sr sc acc =
     (if sc < size_b b then
        (case getWordMask b horizontal r c word (if flip then sc else sr) (if flip then sr else sc) of
           Inl e \<Rightarrow> Inl e
         | Inr char \<Rightarrow>
             if char = EMPTY then
               (if length acc \<ge> 2 \<and> acc \<notin> WORD_SET WORDS then Inr None
                else sc_loop WORDS b horizontal r c word flip sr (sc + 1) [])
             else sc_loop WORDS b horizontal r c word flip sr (sc + 1) (acc @ to_str char))
      else Inr (Some acc))"
  by pat_completeness auto
termination
  by (relation "measure (\<lambda>(WORDS, b, horizontal, r, c, word, flip, sr, sc, acc). size_b b - sc)") auto

declare sc_loop.simps [simp del]

text \<open>The loop over \<open>sr\<close>: \<open>Inr False\<close> is a \<open>return false\<close>, \<open>Inr True\<close> the loop running out.\<close>

function sr_loop ::
  "string list \<Rightarrow> board \<Rightarrow> bool \<Rightarrow> nat \<Rightarrow> nat \<Rightarrow> string \<Rightarrow> bool \<Rightarrow> nat \<Rightarrow> error + bool" where
  "sr_loop WORDS b horizontal r c word flip sr =
     (if sr < size_b b then
        (case sc_loop WORDS b horizontal r c word flip sr 0 [] of
           Inl e \<Rightarrow> Inl e
         | Inr None \<Rightarrow> Inr False
         | Inr (Some acc) \<Rightarrow>
             if length acc \<ge> 2 \<and> acc \<notin> WORD_SET WORDS then Inr False
             else sr_loop WORDS b horizontal r c word flip (sr + 1))
      else Inr True)"
  by pat_completeness auto
termination
  by (relation "measure (\<lambda>(WORDS, b, horizontal, r, c, word, flip, sr). size_b b - sr)") auto

declare sr_loop.simps [simp del]

text \<open>\<open>for (let flip of [false, true])\<close>.\<close>

fun flip_loop ::
  "string list \<Rightarrow> board \<Rightarrow> bool \<Rightarrow> nat \<Rightarrow> nat \<Rightarrow> string \<Rightarrow> bool list \<Rightarrow> error + bool" where
  "flip_loop WORDS b horizontal r c word [] = Inr True"
| "flip_loop WORDS b horizontal r c word (flip # flips) =
     (case sr_loop WORDS b horizontal r c word flip 0 of
        Inl e \<Rightarrow> Inl e
      | Inr False \<Rightarrow> Inr False
      | Inr True \<Rightarrow> flip_loop WORDS b horizontal r c word flips)"

text \<open>
  \<open>isValidPlacement\<close> as a method of the board: it returns its verdict (or the exception
  raised) together with the board object after the call.
\<close>

definition isValidPlacement ::
  "string list \<Rightarrow> bool \<Rightarrow> nat \<Rightarrow> nat \<Rightarrow> string \<Rightarrow> board \<Rightarrow> (error + bool) \<times> board" where
  "isValidPlacement WORDS horizontal r c word b =
     ((case scan_loop b (getDeltas horizontal) r c word 0 0 0 of
         Inl e \<Rightarrow> Inl e
       | Inr None \<Rightarrow> Inr False
       | Inr (Some (overlaps, standalone)) \<Rightarrow>
           if (totalPlacements b > 0 \<and> overlaps = 0) \<or> standalone = 0 then Inr False
           else flip_loop WORDS b horizontal r c word [False, True]),
      b)"

subsection \<open>Committing a placement\<close>

text \<open>
  The loop of \<open>actuallyPlaceWord\<close>, with the tiles as they are when it ends: after the last
  letter (\<open>Inr ()\<close>), or at the write that raised an exception.
\<close>

function place_loop ::
  "char option list list \<Rightarrow> nat \<times> nat \<Rightarrow> nat \<Rightarrow> nat \<Rightarrow> string \<Rightarrow> nat
     \<Rightarrow> (error + unit) \<times> char option list list" where
  "place_loop t d r c word i =
     (if i < length word then
        (case set_tile t (r + fst d * i) (c + snd d * i) (letter word i) of
           Inl e \<Rightarrow> (Inl e, t)
         | Inr t' \<Rightarrow> place_loop t' d r c word (i + 1))
      else (Inr (), t))"
  by pat_completeness auto
termination
  by (relation "measure (\<lambda>(t, d, r, c, word, i). length word - i)") auto

declare place_loop.simps [simp del]

text \<open>
  \<open>actuallyPlaceWord\<close>: the counter is incremented, then the letters are written. Like
  \<open>isValidPlacement\<close> it returns its outcome together with the board after the call.
\<close>

definition actuallyPlaceWord ::
  "string \<Rightarrow> bool \<Rightarrow> nat \<Rightarrow> nat \<Rightarrow> board \<Rightarrow> (error + unit) \<times> board" where
  "actuallyPlaceWord word horizontal r c b =
     (let b1 = b\<lparr>totalPlacements := totalPlacements b + 1\<rparr> in
      case place_loop (tiles b1) (getDeltas horizontal) r c word 0 of
        (res, t) \<Rightarrow> (res, b1\<lparr>tiles := t\<rparr>))"

subsection \<open>The generation run\<close>

text \<open>
  \<open>Math.random()\<close> is an oracle: \<open>rnd k\<close> is the value of the \<open>k\<close>-th call, and the number of
  calls made so far is threaded with the board. \<open>draw\<close> is
  \<open>xs[Math.floor(Math.random() * xs.length)]\<close>.
\<close>

definition draw :: "(nat \<Rightarrow> real) \<Rightarrow> nat \<Rightarrow> 'a list \<Rightarrow> 'a option" where
  "draw rnd k xs = index xs \<lfloor>rnd k * real (length xs)\<rfloor>"

text \<open>
  The start positions the two nested \<open>for\<close> statements visit, in the order they visit them:
  \<open>c <= this.size - word.length\<close> and \<open>r <= this.size - word.length\<close> are integer
  comparisons, false from the start when the word is longer than the board.
\<close>

definition horizontal_starts :: "nat \<Rightarrow> string \<Rightarrow> (bool \<times> nat \<times> nat) list" where
  "horizontal_starts n word =
     [(True, r, nat c). r \<leftarrow> [0..<n], c \<leftarrow> [0..int n - int (length word)]]"

definition vertical_starts :: "nat \<Rightarrow> string \<Rightarrow> (bool \<times> nat \<times> nat) list" where
  "vertical_starts n word =
     [(False, nat r, c). r \<leftarrow> [0..int n - int (length word)], c \<leftarrow> [0..<n]]"

text \<open>
  The body of those statements: each start position is given to \<open>isValidPlacement\<close>, and pushed
  on \<open>validPlacements\<close> when the verdict is true. An exception ends the run.
\<close>

fun collect ::
  "string list \<Rightarrow> string \<Rightarrow> (bool \<times> nat \<times> nat) list \<Rightarrow> (bool \<times> nat \<times> nat) list \<Rightarrow> board
     \<Rightarrow> (error + (bool \<times> nat \<times> nat) list) \<times> board" where
  "collect WORDS word [] validPlacements b = (Inr validPlacements, b)"
| "collect WORDS word ((horizontal, r, c) # ps) validPlacements b =
     (case isValidPlacement WORDS horizontal r c word b of
        (Inl e, b') \<Rightarrow> (Inl e, b')
      | (Inr v, b') \<Rightarrow>
          collect WORDS word ps
            (if v then validPlacements @ [(horizontal, r, c)] else validPlacements) b')"

text \<open>
  One cycle of \<open>makePuzzle\<close>. With no word drawn (\<open>WORDS\<close> empty), \<open>word\<close> is \<open>undefined\<close> and
  the first evaluation of \<open>word.length\<close>, in a loop condition, raises \<open>TypeError\<close>.
\<close>

definition cycle ::
  "string list \<Rightarrow> (nat \<Rightarrow> real) \<Rightarrow> board \<times> nat \<Rightarrow> error + board \<times> nat" where
  "cycle WORDS rnd s =
     (case s of (b, k) \<Rightarrow>
        (case draw rnd k WORDS of
           None \<Rightarrow> Inl TypeError
         | Some word \<Rightarrow>
             (case collect WORDS word
                     (horizontal_starts (size_b b) word @ vertical_starts (size_b b) word) [] b of
                (Inl e, b') \<Rightarrow> Inl e
              | (Inr validPlacements, b') \<Rightarrow>
                  if length validPlacements > 0 then
                    (case draw rnd (k + 1) validPlacements of
                       None \<Rightarrow> Inl TypeError
                     | Some (horizontal, r, c) \<Rightarrow>
                         (case actuallyPlaceWord word horizontal r c b' of
                            (Inl e, b'') \<Rightarrow> Inl e
                          | (Inr u, b'') \<Rightarrow> Inr (b'', k + 2)))
                  else Inr (b', k + 1))))"

function makePuzzle_loop ::
  "string list \<Rightarrow> (nat \<Rightarrow> real) \<Rightarrow> nat \<Rightarrow> nat \<Rightarrow> board \<times> nat \<Rightarrow> error + board \<times> nat" where
  "makePuzzle_loop WORDS rnd cycles i s =
     (if i < cycles then
        (case cycle WORDS rnd s of
           Inl e \<Rightarrow> Inl e
         | Inr s' \<Rightarrow> makePuzzle_loop WORDS rnd cycles (i + 1) s')
      else Inr s)"
  by pat_completeness auto
termination
  by (relation "measure (\<lambda>(WORDS, rnd, cycles, i, s). cycles - i)") auto

declare makePuzzle_loop.simps [simp del]

definition makePuzzle ::
  "string list \<Rightarrow> (nat \<Rightarrow> real) \<Rightarrow> nat \<Rightarrow> board \<times> nat \<Rightarrow> error + board \<times> nat" where
  "makePuzzle WORDS rnd cycles s =
     (case s of (b, k) \<Rightarrow> makePuzzle_loop WORDS rnd cycles 0 (b\<lparr>totalPlacements := 0\<rparr>, k))"

text \<open>
  The constructor: \<open>size\<close> rows of \<open>size\<close> empty tiles, then \<open>makePuzzle()\<close> with its default
  of 50000 cycles. (\<open>totalPlacements\<close> does not exist before \<open>makePuzzle\<close> sets it to 0.)
\<close>

definition empty_board :: "nat \<Rightarrow> board" where
  "empty_board n = \<lparr>size_b = n, tiles = replicate n (replicate n EMPTY), totalPlacements = 0\<rparr>"

definition Board :: "string list \<Rightarrow> (nat \<Rightarrow> real) \<Rightarrow> nat \<Rightarrow> nat \<Rightarrow> error + board \<times> nat" where
  "Board WORDS rnd k n = makePuzzle WORDS rnd 50000 (empty_board n, k)"

subsection \<open>Density and the best-of-N search\<close>

text \<open>
  \<open>density\<close> counts the tiles that are not \<open>"."\<close>. The quotient is taken in the reals; for
  \<open>size = 0\<close>, where the constructor makes no tile, JavaScript yields \<open>NaN\<close> and HOL yields 0,
  and both compare as not greater than any density.
\<close>

definition occupied :: "char option list list \<Rightarrow> nat" where
  "occupied t = sum_list (map (\<lambda>row. length (filter (\<lambda>char. char \<noteq> EMPTY) row)) t)"

definition density :: "board \<Rightarrow> real" where
  "density b = real (occupied (tiles b)) / real (size_b b * size_b b)"

text \<open>
  \<open>createBoard\<close>. \<open>Date.now()\<close> is an oracle like \<open>Math.random()\<close>: \<open>now t\<close> is the reading
  of the \<open>t\<close>-th call, in milliseconds. The loop ends only when the clock says so, so it is
  a partial function: \<open>None\<close> is a search that never returns. \<open>best = None\<close> is \<open>null\<close>.
\<close>

partial_function (option) createBoard_loop ::
  "string list \<Rightarrow> (nat \<Rightarrow> real) \<Rightarrow> (nat \<Rightarrow> int) \<Rightarrow> real \<Rightarrow> nat \<Rightarrow> int
     \<Rightarrow> real \<Rightarrow> board option \<Rightarrow> nat \<Rightarrow> nat \<Rightarrow> nat \<Rightarrow> (error + board option \<times> nat) option" where
  "createBoard_loop WORDS rnd now searchTimeSeconds n startTime bestDensity best boardsGenerated k t =
     (if real_of_int (now t - startTime) < searchTimeSeconds * 1000 then
        (case Board WORDS rnd k n of
           Inl e \<Rightarrow> Some (Inl e)
         | Inr (board, k') \<Rightarrow>
             if density board > bestDensity
             then createBoard_loop WORDS rnd now searchTimeSeconds n startTime
                    (density board) (Some board) (boardsGenerated + 1) k' (t + 1)
             else createBoard_loop WORDS rnd now searchTimeSeconds n startTime
                    bestDensity best (boardsGenerated + 1) k' (t + 1))
      else Some (Inr (best, boardsGenerated)))"

definition createBoard ::
  "string list \<Rightarrow> (nat \<Rightarrow> real) \<Rightarrow> (nat \<Rightarrow> int) \<Rightarrow> real \<Rightarrow> nat \<Rightarrow> (error + board option \<times> nat) option" where
  "createBoard WORDS rnd now searchTimeSeconds n =
     createBoard_loop WORDS rnd now searchTimeSeconds n (now 0) 0 None 0 0 1"

subsection \<open>Notions used to state the properties\<close>

text \<open>
  Letter case, for comparing strings up to case: \<open>fold_case\<close> gives an upper-case ASCII
  letter the code of its lower-case form and every other character its own code.
\<close>

definition is_upper :: "char \<Rightarrow> bool" where
  "is_upper ch = (65 \<le> (of_char ch :: nat) \<and> (of_char ch :: nat) \<le> 90)"

definition fold_case :: "char \<Rightarrow> nat" where
  "fold_case ch = (if is_upper ch then of_char ch + 32 else of_char ch)"

definition same_up_to_case :: "string \<Rightarrow> string \<Rightarrow> bool" where
  "same_up_to_case s t = (map fold_case s = map fold_case t)"

text \<open>
  A well-formed board is the \<open>N \<times> N\<close> grid: \<open>size\<close> rows of \<open>size\<close> tiles, none of them
  \<open>undefined\<close>.
\<close>

definition wf_board :: "board \<Rightarrow> bool" where
  "wf_board b \<longleftrightarrow>
     length (tiles b) = size_b b \<and>
     (\<forall>row\<in>set (tiles b). length row = size_b b \<and> None \<notin> set row)"

text \<open>Every cell the word would occupy lies within the \<open>n \<times> n\<close> grid.\<close>

definition in_grid :: "nat \<Rightarrow> bool \<Rightarrow> nat \<Rightarrow> nat \<Rightarrow> string \<Rightarrow> bool" where
  "in_grid n horizontal r c word \<longleftrightarrow>
     (\<forall>i\<in>{..<length word}.
        r + fst (getDeltas horizontal) * i < n \<and> c + snd (getDeltas horizontal) * i < n)"

text \<open>
  The geometrically feasible start positions of a word: a row of the grid and
  \<open>col + len(word) \<le> N\<close> for a horizontal placement, \<open>row + len(word) \<le> N\<close> and a column of
  the grid for a vertical one.
\<close>

definition feasible :: "nat \<Rightarrow> string \<Rightarrow> bool \<times> nat \<times> nat \<Rightarrow> bool" where
  "feasible n word p =
     (case p of (horizontal, r, c) \<Rightarrow>
        if horizontal then r < n \<and> c + length word \<le> n else r + length word \<le> n \<and> c < n)"

text \<open>
  The tile under the \<open>i\<close>-th letter of a placement, and the quantities the local rule speaks
  of: a hard letter conflict (an occupied tile under the word that differs from the word's
  letter there), the number of empty tiles covered, the number of occupied tiles covered that
  already hold the word's letter. \<open>on_rows\<close> says that every letter falls on a row of the
  board, \<open>fits\<close> that every tile covered is empty or already holds the word's letter.
\<close>

definition tile_under :: "board \<Rightarrow> bool \<Rightarrow> nat \<Rightarrow> nat \<Rightarrow> nat \<Rightarrow> error + char option" where
  "tile_under b horizontal r c i =
     tile_at (tiles b) (r + fst (getDeltas horizontal) * i) (c + snd (getDeltas horizontal) * i)"

definition conflict :: "board \<Rightarrow> bool \<Rightarrow> nat \<Rightarrow> nat \<Rightarrow> string \<Rightarrow> bool" where
  "conflict b horizontal r c word \<longleftrightarrow>
     (\<exists>i\<in>{..<length word}.
        case tile_under b horizontal r c i of
          Inr (Some x) \<Rightarrow> x \<noteq> CHR ''.'' \<and> x \<noteq> word ! i
        | _ \<Rightarrow> False)"

definition standalone_count :: "board \<Rightarrow> bool \<Rightarrow> nat \<Rightarrow> nat \<Rightarrow> string \<Rightarrow> nat" where
  "standalone_count b horizontal r c word =
     length (filter (\<lambda>i. tile_under b horizontal r c i = Inr EMPTY) [0..<length word])"

definition overlaps_count :: "board \<Rightarrow> bool \<Rightarrow> nat \<Rightarrow> nat \<Rightarrow> string \<Rightarrow> nat" where
  "overlaps_count b horizontal r c word =
     length (filter (\<lambda>i. tile_under b horizontal r c i \<noteq> Inr EMPTY \<and>
                          tile_under b horizontal r c i = Inr (letter word i)) [0..<length word])"

definition on_rows :: "board \<Rightarrow> bool \<Rightarrow> nat \<Rightarrow> string \<Rightarrow> bool" where
  "on_rows b horizontal r word \<longleftrightarrow>
     (\<forall>i\<in>{..<length word}. r + fst (getDeltas horizontal) * i < length (tiles b))"

definition fits :: "board \<Rightarrow> bool \<Rightarrow> nat \<Rightarrow> nat \<Rightarrow> string \<Rightarrow> bool" where
  "fits b horizontal r c word \<longleftrightarrow>
     (\<forall>i\<in>{..<length word}.
        tile_under b horizontal r c i = Inr EMPTY \<or> tile_under b horizontal r c i = Inr (letter word i))"

text \<open>
  Runs. In a line of tiles (a row, or a column read top to bottom), the tiles \<open>i, \<dots>, j - 1\<close>
  form a maximal run when none of them is empty, the tile before them (if any) is empty, and
  the tile after them (if any) is empty. A line is valid when every maximal run of two or
  more tiles spells a member of the lexicon; a grid is valid when all its rows and all its
  columns are.
\<close>

definition is_run :: "char option list \<Rightarrow> nat \<Rightarrow> nat \<Rightarrow> bool" where
  "is_run line i j \<longleftrightarrow>
     i < j \<and> j \<le> length line \<and>
     (\<forall>k\<in>{i..<j}. line ! k \<noteq> EMPTY) \<and>
     (i = 0 \<or> line ! (i - 1) = EMPTY) \<and>
     (j = length line \<or> line ! j = EMPTY)"

definition spelled :: "char option list \<Rightarrow> nat \<Rightarrow> nat \<Rightarrow> string" where
  "spelled line i j = concat (map to_str (take (j - i) (drop i line)))"

definition line_valid :: "string list \<Rightarrow> char option list \<Rightarrow> bool" where
  "line_valid WORDS line \<longleftrightarrow>
     (\<forall>i\<in>{..<length line}. \<forall>j\<in>{i + 2..length line}.
        is_run line i j \<longrightarrow> spelled line i j \<in> WORD_SET WORDS)"

definition column_of :: "char option list list \<Rightarrow> nat \<Rightarrow> char option list" where
  "column_of t c = map (\<lambda>row. row ! c) t"

definition grid_valid :: "string list \<Rightarrow> board \<Rightarrow> bool" where
  "grid_valid WORDS b \<longleftrightarrow>
     (\<forall>r\<in>{..<size_b b}. line_valid WORDS (tiles b ! r)) \<and>
     (\<forall>c\<in>{..<size_b b}. line_valid WORDS (column_of (tiles b) c))"

text \<open>
  The line of the simulated grid that one pass of the innermost loop of the cross-check
  reads through \<open>getWordMask\<close>: row \<open>sr\<close> when \<open>flip\<close> is false, column \<open>sr\<close> when it is true.
\<close>

definition mask_line :: "board \<Rightarrow> bool \<Rightarrow> nat \<Rightarrow> nat \<Rightarrow> string \<Rightarrow> bool \<Rightarrow> nat \<Rightarrow> char option list" where
  "mask_line b horizontal r c word flip sr =
     map (\<lambda>sc. case getWordMask b horizontal r c word (if flip then sc else sr) (if flip then sr else sc) of
                 Inl e \<Rightarrow> None
               | Inr char \<Rightarrow> char)
         [0..<size_b b]"

section \<open>Properties\<close>

subsection \<open>Lexicon membership\<close>

text \<open>
  C4, as the spec states it: membership is a match up to letter case, so that the upper-case
  variant of a loaded lower-case word is found. The code tests \<open>WORD_SET.has\<close>, which
  compares strings exactly: "CAT" equals the loaded word "cat" up to case and is not found.
\<close>

theorem has_case_counterexample:
  "same_up_to_case ''CAT'' ''cat'' \<and> ''cat'' \<in> WORD_SET [''cat''] \<and> ''CAT'' \<notin> WORD_SET [''cat'']"
  by (simp add: same_up_to_case_def fold_case_def is_upper_def WORD_SET_def)

text \<open>
  C4, amended: lexicon membership is a case-sensitive exact whole-string match. A string is
  a member if and only if it equals some loaded word character for character; when every
  loaded word is free of upper-case letters, a string holding an upper-case letter is not a
  member.
\<close>

theorem has_exact_match:
  "(s \<in> WORD_SET WORDS \<longleftrightarrow> (\<exists>w\<in>set WORDS. s = w)) \<and>
   ((\<forall>w\<in>set WORDS. \<forall>ch\<in>set w. \<not> is_upper ch) \<and> (\<exists>ch\<in>set s. is_upper ch)
      \<longrightarrow> s \<notin> WORD_SET WORDS)"
proof (intro conjI impI)
  show "s \<in> WORD_SET WORDS \<longleftrightarrow> (\<exists>w\<in>set WORDS. s = w)"
    by (auto simp: WORD_SET_def)
next
  assume h: "(\<forall>w\<in>set WORDS. \<forall>ch\<in>set w. \<not> is_upper ch) \<and> (\<exists>ch\<in>set s. is_upper ch)"
  show "s \<notin> WORD_SET WORDS"
  proof
    assume "s \<in> WORD_SET WORDS"
    then have "s \<in> set WORDS" by (simp add: WORD_SET_def)
    with h show False by blast
  qed
qed

theorem has_exact_match_witness:
  "''cat'' \<in> WORD_SET [''cat'', ''at''] \<and> ''Cat'' \<notin> WORD_SET [''cat'', ''at'']"
proof -
  have "''Cat'' \<notin> WORD_SET [''cat'', ''at'']"
    using has_exact_match [of "''Cat''" "[''cat'', ''at'']"]
    by (simp add: is_upper_def)
  moreover have "''cat'' \<in> WORD_SET [''cat'', ''at'']"
    using has_exact_match [of "''cat''" "[''cat'', ''at'']"] by simp
  ultimately show ?thesis by simp
qed

subsection \<open>The search without a time budget\<close>

text \<open>
  C7: with a zero or negative budget \<open>createBoard\<close> constructs no board and returns
  \<open>[null, 0]\<close>, an ordinary return value. The clock is taken not to step backwards between
  the reading of \<open>startTime\<close> and the first loop test.
\<close>

theorem createBoard_no_budget:
  assumes "searchTimeSeconds \<le> 0" and "now 0 \<le> now 1"
  shows "createBoard WORDS rnd now searchTimeSeconds n = Some (Inr (None, 0))"
proof -
  have "searchTimeSeconds * 1000 \<le> 0"
    using assms(1) by (simp add: mult_le_0_iff)
  moreover have "0 \<le> real_of_int (now 1 - now 0)"
    using assms(2) by simp
  ultimately have "\<not> real_of_int (now 1 - now 0) < searchTimeSeconds * 1000"
    by linarith
  then show ?thesis
    by (simp add: createBoard_def createBoard_loop.simps)
qed

theorem createBoard_no_budget_witness:
  "createBoard [''cat''] (\<lambda>_. 0) (\<lambda>t. 7 + int t) (- 1) 4 = Some (Inr (None, 0))"
  using createBoard_no_budget [of "- 1" "\<lambda>t. 7 + int t" "[''cat'']" "\<lambda>_. 0" 4] by simp

subsection \<open>A run without words\<close>

lemma cycle_no_words: "cycle [] rnd s = Inl TypeError"
  by (simp add: cycle_def draw_def index_def split: prod.splits)

text \<open>
  C9, as the spec states it: with an empty word list a run completes all its cycles and
  yields the all-empty grid. In the code the word drawn from an empty list is \<open>undefined\<close>,
  and the first cycle raises \<open>TypeError\<close> when it reads \<open>word.length\<close>: the constructor of
  a board of the default size does not return.
\<close>

theorem empty_words_counterexample: "Board [] (\<lambda>_. 0) 0 15 = Inl TypeError"
  by (simp add: Board_def makePuzzle_def makePuzzle_loop.simps cycle_no_words)

text \<open>
  C9, amended: with an empty word list, a run of at least one cycle raises \<open>TypeError\<close> in its
  first cycle and yields no grid; only a run of zero cycles returns the all-empty grid with
  placement counter 0.
\<close>

theorem makePuzzle_no_words:
  "(0 < cycles \<longrightarrow> makePuzzle [] rnd cycles (b, k) = Inl TypeError) \<and>
   makePuzzle [] rnd 0 (empty_board n, k) = Inr (empty_board n, k)"
  by (simp add: makePuzzle_def makePuzzle_loop.simps cycle_no_words empty_board_def)

theorem makePuzzle_no_words_witness:
  "makePuzzle [] (\<lambda>_. 1 / 2) 50000 (empty_board 10, 0) = Inl TypeError \<and>
   makePuzzle [] (\<lambda>_. 1 / 2) 0 (empty_board 10, 0) = Inr (empty_board 10, 0)"
  using makePuzzle_no_words [of 50000 "\<lambda>_. 1 / 2" "empty_board 10" 0 10] by simp

subsection \<open>The validator raises nothing and changes nothing\<close>

lemma tile_at_row: "r < length t \<Longrightarrow> \<exists>v. tile_at t r c = Inr v"
  by (simp add: tile_at_def)

lemma scan_loop_total:
  "(\<forall>j. i \<le> j \<and> j < length word \<longrightarrow> r + fst d * j < length (tiles b))
   \<Longrightarrow> \<exists>x. scan_loop b d r c word i overlaps standalone = Inr x"
proof (induction b d r c word i overlaps standalone rule: scan_loop.induct)
  case (1 b d r c word i overlaps standalone)
  show ?case
  proof (cases "i < length word")
    case False
    then show ?thesis by (subst scan_loop.simps) simp
  next
    case True
    with "1.prems" have "r + fst d * i < length (tiles b)" by simp
    then obtain v where v: "tile_at (tiles b) (r + fst d * i) (c + snd d * i) = Inr v"
      using tile_at_row by blast
    have rest: "\<forall>j. i + 1 \<le> j \<and> j < length word \<longrightarrow> r + fst d * j < length (tiles b)"
      using "1.prems" by simp
    show ?thesis
      using True v "1.IH"(1)[OF True v _ _ rest] "1.IH"(2)[OF True v _ rest]
      by (subst scan_loop.simps) auto
  qed
qed

lemma getWordMask_row:
  "searchRow < length (tiles b) \<Longrightarrow> \<exists>v. getWordMask b horizontal r c word searchRow searchColumn = Inr v"
  by (simp add: getWordMask_def tile_at_def)

lemma sc_loop_total:
  "length (tiles b) = size_b b \<Longrightarrow> sr < size_b b
   \<Longrightarrow> \<exists>x. sc_loop WORDS b horizontal r c word flip sr sc acc = Inr x"
proof (induction WORDS b horizontal r c word flip sr sc acc rule: sc_loop.induct)
  case (1 WORDS b horizontal r c word flip sr sc acc)
  show ?case
  proof (cases "sc < size_b b")
    case False
    then show ?thesis by (subst sc_loop.simps) simp
  next
    case True
    then have "(if flip then sc else sr) < length (tiles b)"
      using "1.prems" by simp
    then obtain v where v: "getWordMask b horizontal r c word (if flip then sc else sr) (if flip then sr else sc) = Inr v"
      using getWordMask_row by blast
    show ?thesis
      using True v "1.IH"(1)[OF True v _ _ "1.prems"] "1.IH"(2)[OF True v _ "1.prems"]
      by (subst sc_loop.simps) auto
  qed
qed

lemma sr_loop_total:
  "length (tiles b) = size_b b
   \<Longrightarrow> \<exists>x. sr_loop WORDS b horizontal r c word flip sr = Inr x"
proof (induction WORDS b horizontal r c word flip sr rule: sr_loop.induct)
  case (1 WORDS b horizontal r c word flip sr)
  show ?case
  proof (cases "sr < size_b b")
    case False
    then show ?thesis by (subst sr_loop.simps) auto
  next
    case True
    obtain x where x: "sc_loop WORDS b horizontal r c word flip sr 0 [] = Inr x"
      using sc_loop_total[OF "1.prems" True] by blast
    show ?thesis
    proof (cases x)
      case None
      with x True show ?thesis by (subst sr_loop.simps) auto
    next
      case (Some acc)
      with x True "1.IH"[OF True x Some _ "1.prems"] show ?thesis
        by (subst sr_loop.simps) auto
    qed
  qed
qed

lemma flip_loop_total:
  "length (tiles b) = size_b b
   \<Longrightarrow> \<exists>x. flip_loop WORDS b horizontal r c word flips = Inr x"
proof (induction flips)
  case Nil
  then show ?case by auto
next
  case (Cons flip flips)
  obtain x where "sr_loop WORDS b horizontal r c word flip 0 = Inr x"
    using sr_loop_total[OF Cons.prems] by blast
  with Cons show ?case by (cases x) auto
qed

lemma validator_total:
  assumes "length (tiles b) = size_b b"
      and "\<forall>i<length word. r + fst (getDeltas horizontal) * i < size_b b"
  shows "\<exists>v. isValidPlacement WORDS horizontal r c word b = (Inr v, b)"
proof -
  have "\<forall>j. 0 \<le> j \<and> j < length word \<longrightarrow> r + fst (getDeltas horizontal) * j < length (tiles b)"
    using assms by simp
  then have "\<exists>x. scan_loop b (getDeltas horizontal) r c word 0 0 0 = Inr x"
    by (rule scan_loop_total)
  then obtain x where x: "scan_loop b (getDeltas horizontal) r c word 0 0 0 = Inr x" ..
  obtain y where y: "flip_loop WORDS b horizontal r c word [False, True] = Inr y"
    using flip_loop_total[OF assms(1)] by blast
  show ?thesis
    unfolding isValidPlacement_def x using y
    by (cases x) (auto split: prod.splits)
qed

lemma wf_empty_board: "wf_board (empty_board n)"
  by (auto simp: wf_board_def empty_board_def)

text \<open>
  C3: for a placement whose cells all lie within the \<open>N \<times> N\<close> grid, \<open>isValidPlacement\<close>
  terminates without raising an exception, returns a boolean, and the board after the call
  (every tile and the placement counter) is the board before it.
\<close>

theorem isValidPlacement_pure_total:
  assumes "wf_board b" and "in_grid (size_b b) horizontal r c word"
  shows "\<exists>v. isValidPlacement WORDS horizontal r c word b = (Inr v, b)"
  using assms validator_total[of b word r horizontal WORDS c]
  by (simp add: wf_board_def in_grid_def)

theorem isValidPlacement_pure_total_witness:
  "wf_board (empty_board 4) \<and> in_grid 4 False 1 3 ''cat'' \<and>
   (\<exists>v. isValidPlacement [''cat'', ''at''] False 1 3 ''cat'' (empty_board 4) = (Inr v, empty_board 4))"
proof -
  have w: "wf_board (empty_board 4)" by (rule wf_empty_board)
  have g: "in_grid 4 False 1 3 ''cat''"
    by (simp add: in_grid_def getDeltas_def lessThan_Suc lessThan_nat_numeral)
  have "in_grid (size_b (empty_board 4)) False 1 3 ''cat''"
    using g by (simp add: empty_board_def)
  with w show ?thesis
    using g isValidPlacement_pure_total [of "empty_board 4" False 1 3 "''cat''" "[''cat'', ''at'']"]
    by simp
qed

subsection \<open>The start positions of a cycle\<close>

lemma horizontal_starts_iff:
  "(h, r, c) \<in> set (horizontal_starts n word) \<longleftrightarrow> h \<and> r < n \<and> c + length word \<le> n"
proof
  assume "(h, r, c) \<in> set (horizontal_starts n word)"
  then obtain x where "h" "r < n" "0 \<le> x" "x \<le> int n - int (length word)" "c = nat x"
    by (auto simp: horizontal_starts_def)
  then show "h \<and> r < n \<and> c + length word \<le> n" by auto
next
  assume a: "h \<and> r < n \<and> c + length word \<le> n"
  then have "int c \<in> set [0..int n - int (length word)]" by simp
  then have "(True, r, nat (int c)) \<in> (\<lambda>x. (True, r, nat x)) ` set [0..int n - int (length word)]"
    by (rule imageI)
  moreover have "r \<in> set [0..<n]" using a by simp
  ultimately show "(h, r, c) \<in> set (horizontal_starts n word)"
    using a unfolding horizontal_starts_def set_concat set_map by auto
qed

lemma vertical_starts_iff:
  "(h, r, c) \<in> set (vertical_starts n word) \<longleftrightarrow> \<not> h \<and> r + length word \<le> n \<and> c < n"
proof
  assume "(h, r, c) \<in> set (vertical_starts n word)"
  then obtain x where "\<not> h" "c < n" "0 \<le> x" "x \<le> int n - int (length word)" "r = nat x"
    by (auto simp: vertical_starts_def)
  then show "\<not> h \<and> r + length word \<le> n \<and> c < n" by auto
next
  assume a: "\<not> h \<and> r + length word \<le> n \<and> c < n"
  have "int r \<in> {0..int n - int (length word)}" using a by simp
  moreover have "(False, r, c) \<in> (\<lambda>xa. (False, nat (int r), xa)) ` {0..<n}"
    using a by simp
  ultimately have "\<exists>x\<in>{0..int n - int (length word)}. (False, r, c) \<in> (\<lambda>xa. (False, nat x, xa)) ` {0..<n}"
    by (rule bexI[rotated])
  then show "(h, r, c) \<in> set (vertical_starts n word)"
    using a by (simp add: vertical_starts_def)
qed

lemma starts_feasible:
  "p \<in> set (horizontal_starts n word @ vertical_starts n word) \<longleftrightarrow> feasible n word p"
  by (cases p) (auto simp: horizontal_starts_iff vertical_starts_iff feasible_def)

lemma starts_too_long:
  "n < length word \<Longrightarrow> horizontal_starts n word @ vertical_starts n word = []"
  by (simp add: horizontal_starts_def vertical_starts_def)

lemma feasible_in_grid:
  "feasible n word (horizontal, r, c) \<Longrightarrow> in_grid n horizontal r c word"
  by (auto simp: feasible_def in_grid_def getDeltas_def split: if_splits)

lemma collect_all:
  assumes "length (tiles b) = size_b b"
      and "\<forall>p\<in>set ps. feasible (size_b b) word p"
  shows "collect WORDS word ps validPlacements b =
           (Inr (validPlacements @
                 filter (\<lambda>(horizontal, r, c). isValidPlacement WORDS horizontal r c word b = (Inr True, b)) ps), b)"
  using assms(2)
proof (induction ps arbitrary: validPlacements)
  case Nil
  then show ?case by simp
next
  case (Cons p ps)
  obtain horizontal r c where p: "p = (horizontal, r, c)" by (cases p) auto
  have "in_grid (size_b b) horizontal r c word"
    using Cons.prems p feasible_in_grid by simp
  then have "\<forall>i<length word. r + fst (getDeltas horizontal) * i < size_b b"
    by (simp add: in_grid_def)
  then obtain v where v: "isValidPlacement WORDS horizontal r c word b = (Inr v, b)"
    using validator_total[OF assms(1)] by blast
  show ?case
    using Cons.IH Cons.prems by (simp add: p v)
qed

subsection \<open>The simulated grid is the committed grid\<close>

lemma length_set_tile: "set_tile t r c v = Inr t' \<Longrightarrow> length t' = length t"
  by (auto simp: set_tile_def split: if_splits)

lemma tile_at_set_tile:
  assumes "set_tile t r c v = Inr t'"
  shows "tile_at t' sr sc = (if sr = r \<and> sc = c then Inr v else tile_at t sr sc)"
proof -
  have r: "r < length t" and t': "t' = t[r := write_at (t ! r) c v]"
    using assms by (auto simp: set_tile_def split: if_splits)
  show ?thesis
  proof (cases "sr = r")
    case False
    then show ?thesis by (simp add: tile_at_def t')
  next
    case True
    show ?thesis
    proof (cases "c < length (t ! r)")
      case True
      with \<open>sr = r\<close> r show ?thesis
        by (auto simp: tile_at_def t' write_at_def nth_list_update)
    next
      case False
      with \<open>sr = r\<close> r show ?thesis
        by (auto simp: tile_at_def t' write_at_def nth_append)
    qed
  qed
qed

lemma place_loop_length: "place_loop t d r c word i = (res, t') \<Longrightarrow> length t' = length t"
proof (induction t d r c word i rule: place_loop.induct)
  case (1 t d r c word i)
  show ?case
  proof (cases "i < length word")
    case False
    with "1.prems" show ?thesis by (subst (asm) place_loop.simps) simp
  next
    case True
    show ?thesis
    proof (cases "set_tile t (r + fst d * i) (c + snd d * i) (letter word i)")
      case (Inl e)
      with True "1.prems" show ?thesis by (subst (asm) place_loop.simps) simp
    next
      case (Inr t1)
      with True "1.prems" have "place_loop t1 d r c word (i + 1) = (res, t')"
        by (subst (asm) place_loop.simps) simp
      from "1.IH"[OF True Inr this] length_set_tile[OF Inr] show ?thesis by simp
    qed
  qed
qed

lemma place_loop_tiles:
  assumes "place_loop t d r c word i = (res, t')" and "fst d + snd d = 1" and "sr < length t"
  shows "(\<forall>j. i \<le> j \<and> j < length word \<and> sr = r + fst d * j \<and> sc = c + snd d * j
            \<longrightarrow> tile_at t' sr sc = Inr (letter word j)) \<and>
         ((\<forall>j. i \<le> j \<and> j < length word \<longrightarrow> \<not> (sr = r + fst d * j \<and> sc = c + snd d * j))
            \<longrightarrow> tile_at t' sr sc = tile_at t sr sc)"
  using assms
proof (induction t d r c word i rule: place_loop.induct)
  case (1 t d r c word i)
  show ?case
  proof (cases "i < length word")
    case False
    with "1.prems"(1) have "t' = t" by (subst (asm) place_loop.simps) simp
    with False show ?thesis by auto
  next
    case True
    show ?thesis
    proof (cases "set_tile t (r + fst d * i) (c + snd d * i) (letter word i)")
      case (Inl e)
      with True "1.prems"(1) have same: "t' = t" by (subst (asm) place_loop.simps) simp
      from Inl have row: "\<not> r + fst d * i < length t"
        by (auto simp: set_tile_def split: if_splits)
      have "\<And>j. i \<le> j \<Longrightarrow> sr = r + fst d * j \<Longrightarrow> False"
      proof -
        fix j assume "i \<le> j" "sr = r + fst d * j"
        then have "r + fst d * i \<le> sr" by simp
        with row "1.prems"(3) show False by simp
      qed
      with same show ?thesis by blast
    next
      case (Inr t1)
      note t1 = Inr
      from True "1.prems"(1) t1 have rest: "place_loop t1 d r c word (i + 1) = (res, t')"
        by (subst (asm) place_loop.simps) simp
      have "sr < length t1" using "1.prems"(3) length_set_tile[OF t1] by simp
      note IH = "1.IH"[OF True t1 rest "1.prems"(2) this]
      have t1_at: "tile_at t1 sr sc =
        (if sr = r + fst d * i \<and> sc = c + snd d * i then Inr (letter word i) else tile_at t sr sc)"
        by (rule tile_at_set_tile[OF t1])
      have distinct: "\<And>j. i + 1 \<le> j \<Longrightarrow> \<not> (r + fst d * i = r + fst d * j \<and> c + snd d * i = c + snd d * j)"
      proof
        fix j assume j: "i + 1 \<le> j" and e: "r + fst d * i = r + fst d * j \<and> c + snd d * i = c + snd d * j"
        then have "fst d * i + snd d * i = fst d * j + snd d * j" by simp
        then have "(fst d + snd d) * i = (fst d + snd d) * j" by (simp add: algebra_simps)
        with "1.prems"(2) j show False by simp
      qed
      from IH have IH1: "\<And>j. i + 1 \<le> j \<Longrightarrow> j < length word \<Longrightarrow> sr = r + fst d * j
          \<Longrightarrow> sc = c + snd d * j \<Longrightarrow> tile_at t' sr sc = Inr (letter word j)"
        by blast
      from IH have IH2: "(\<And>j. i + 1 \<le> j \<Longrightarrow> j < length word
          \<Longrightarrow> \<not> (sr = r + fst d * j \<and> sc = c + snd d * j)) \<Longrightarrow> tile_at t' sr sc = tile_at t1 sr sc"
        by blast
      show ?thesis
      proof (intro conjI allI impI)
        fix j assume j: "i \<le> j \<and> j < length word \<and> sr = r + fst d * j \<and> sc = c + snd d * j"
        show "tile_at t' sr sc = Inr (letter word j)"
        proof (cases "j = i")
          case False
          with j have "i + 1 \<le> j" by simp
          then show ?thesis using j by (intro IH1) auto
        next
          case True
          have "tile_at t' sr sc = tile_at t1 sr sc"
          proof (rule IH2)
            fix j' assume "i + 1 \<le> j'" "j' < length word"
            with distinct[of j'] j True show "\<not> (sr = r + fst d * j' \<and> sc = c + snd d * j')"
              by simp
          qed
          with t1_at True j show ?thesis by simp
        qed
      next
        assume n: "\<forall>j. i \<le> j \<and> j < length word \<longrightarrow> \<not> (sr = r + fst d * j \<and> sc = c + snd d * j)"
        have "tile_at t' sr sc = tile_at t1 sr sc"
        proof (rule IH2)
          fix j' assume "i + 1 \<le> j'" "j' < length word"
          then have "i \<le> j' \<and> j' < length word" by simp
          with n show "\<not> (sr = r + fst d * j' \<and> sc = c + snd d * j')" by blast
        qed
        moreover have "\<not> (sr = r + fst d * i \<and> sc = c + snd d * i)"
          using n True by blast
        ultimately show "tile_at t' sr sc = tile_at t sr sc"
          using t1_at by simp
      qed
    qed
  qed
qed

lemma commit_tiles:
  "tiles (snd (actuallyPlaceWord word horizontal r c b)) =
     snd (place_loop (tiles b) (getDeltas horizontal) r c word 0)"
  by (simp add: actuallyPlaceWord_def Let_def split: prod.splits)

lemma commit_is_mask:
  assumes "sr < length (tiles b)"
  shows "getWordMask b horizontal r c word sr sc =
           tile_at (tiles (snd (actuallyPlaceWord word horizontal r c b))) sr sc"
proof -
  let ?t' = "tiles (snd (actuallyPlaceWord word horizontal r c b))"
  obtain res where pl: "place_loop (tiles b) (getDeltas horizontal) r c word 0 = (res, ?t')"
    by (metis commit_tiles prod.collapse)
  have d: "fst (getDeltas horizontal) + snd (getDeltas horizontal) = 1"
    by (simp add: getDeltas_def)
  note T = place_loop_tiles[OF pl d assms, of sc]
  show ?thesis
  proof (cases horizontal)
    case True
    show ?thesis
    proof (cases "sr \<noteq> r \<or> sc < c \<or> sc \<ge> c + length word")
      case out: True
      then have "\<forall>j. 0 \<le> j \<and> j < length word \<longrightarrow>
          \<not> (sr = r + fst (getDeltas horizontal) * j \<and> sc = c + snd (getDeltas horizontal) * j)"
        using True by (auto simp: getDeltas_def)
      with T have "tile_at ?t' sr sc = tile_at (tiles b) sr sc" by blast
      with out True show ?thesis by (simp add: getWordMask_def)
    next
      case inside: False
      then have "0 \<le> sc - c \<and> sc - c < length word \<and> sr = r + fst (getDeltas horizontal) * (sc - c)
          \<and> sc = c + snd (getDeltas horizontal) * (sc - c)"
        using True by (auto simp: getDeltas_def)
      with T have "tile_at ?t' sr sc = Inr (letter word (sc - c))" by blast
      with inside True show ?thesis by (simp add: getWordMask_def)
    qed
  next
    case False
    show ?thesis
    proof (cases "sc \<noteq> c \<or> sr < r \<or> sr \<ge> r + length word")
      case out: True
      then have "\<forall>j. 0 \<le> j \<and> j < length word \<longrightarrow>
          \<not> (sr = r + fst (getDeltas horizontal) * j \<and> sc = c + snd (getDeltas horizontal) * j)"
        using False by (auto simp: getDeltas_def)
      with T have "tile_at ?t' sr sc = tile_at (tiles b) sr sc" by blast
      with out False show ?thesis by (simp add: getWordMask_def)
    next
      case inside: False
      then have "0 \<le> sr - r \<and> sr - r < length word \<and> sr = r + fst (getDeltas horizontal) * (sr - r)
          \<and> sc = c + snd (getDeltas horizontal) * (sr - r)"
        using False by (auto simp: getDeltas_def)
      with T have "tile_at ?t' sr sc = Inr (letter word (sr - r))" by blast
      with inside False show ?thesis by (simp add: getWordMask_def)
    qed
  qed
qed

text \<open>
  C10: for every board, orientation, start position and word, and every coordinate
  \<open>(sr, sc)\<close> on a row of the board, the value \<open>getWordMask\<close> computes on the unmodified
  board is the tile that \<open>actuallyPlaceWord\<close> leaves at \<open>(sr, sc)\<close>.
\<close>

theorem mask_is_commit:
  assumes "sr < length (tiles b)"
  shows "getWordMask b horizontal r c word sr sc =
           tile_at (tiles (snd (actuallyPlaceWord word horizontal r c b))) sr sc"
  using assms by (rule commit_is_mask)

theorem mask_is_commit_witness:
  "actuallyPlaceWord ''at'' False 0 1 (empty_board 2) =
     (Inr (), \<lparr>size_b = 2, tiles = [[EMPTY, Some CHR ''a''], [EMPTY, Some CHR ''t'']], totalPlacements = 1\<rparr>) \<and>
   getWordMask (empty_board 2) False 0 1 ''at'' 1 1 =
     tile_at [[EMPTY, Some CHR ''a''], [EMPTY, Some CHR ''t'']] 1 1"
proof -
  have c: "actuallyPlaceWord ''at'' False 0 1 (empty_board 2) =
     (Inr (), \<lparr>size_b = 2, tiles = [[EMPTY, Some CHR ''a''], [EMPTY, Some CHR ''t'']], totalPlacements = 1\<rparr>)"
    by (simp add: actuallyPlaceWord_def empty_board_def place_loop.simps getDeltas_def set_tile_def
          write_at_def letter_def numeral_2_eq_2)
  have "1 < length (tiles (empty_board 2))" by (simp add: empty_board_def)
  from mask_is_commit [OF this, of False 0 1 "''at''" 1] c show ?thesis by simp
qed

subsection \<open>The local admissibility rule\<close>

lemma scan_loop_reject:
  assumes "i \<le> j" and "j < length word"
      and "\<forall>k. i \<le> k \<and> k \<le> j \<longrightarrow> r + fst d * k < length (tiles b)"
      and "tile_at (tiles b) (r + fst d * j) (c + snd d * j) = Inr v"
      and "v \<noteq> EMPTY" and "v \<noteq> letter word j"
  shows "scan_loop b d r c word i overlaps standalone = Inr None"
  using assms
proof (induction b d r c word i overlaps standalone rule: scan_loop.induct)
  case (1 b d r c word i overlaps standalone)
  have i: "i < length word" using "1.prems" by simp
  have "r + fst d * i < length (tiles b)" using "1.prems" by simp
  then obtain u where u: "tile_at (tiles b) (r + fst d * i) (c + snd d * i) = Inr u"
    using tile_at_row by blast
  show ?case
  proof (cases "i = j")
    case True
    with u "1.prems" i show ?thesis
      by (subst scan_loop.simps) simp
  next
    case False
    then have le: "i + 1 \<le> j" using "1.prems"(1) by simp
    have rows: "\<forall>k. i + 1 \<le> k \<and> k \<le> j \<longrightarrow> r + fst d * k < length (tiles b)"
      using "1.prems"(3) by simp
    note IHa = "1.IH"(1)[OF i u _ _ le "1.prems"(2) rows "1.prems"(4,5,6)]
    note IHb = "1.IH"(2)[OF i u _ le "1.prems"(2) rows "1.prems"(4,5,6)]
    show ?thesis
      using i u IHa IHb by (subst scan_loop.simps) simp
  qed
qed

lemma scan_loop_counts:
  assumes "\<forall>k. i \<le> k \<and> k < length word \<longrightarrow>
             tile_at (tiles b) (r + fst d * k) (c + snd d * k) = Inr EMPTY \<or>
             tile_at (tiles b) (r + fst d * k) (c + snd d * k) = Inr (letter word k)"
  shows "scan_loop b d r c word i overlaps standalone =
           Inr (Some (overlaps + length (filter (\<lambda>k. tile_at (tiles b) (r + fst d * k) (c + snd d * k) \<noteq> Inr EMPTY) [i..<length word]),
                      standalone + length (filter (\<lambda>k. tile_at (tiles b) (r + fst d * k) (c + snd d * k) = Inr EMPTY) [i..<length word])))"
  using assms
proof (induction b d r c word i overlaps standalone rule: scan_loop.induct)
  case (1 b d r c word i overlaps standalone)
  show ?case
  proof (cases "i < length word")
    case False
    then show ?thesis by (subst scan_loop.simps) simp
  next
    case True
    have rest: "\<forall>k. i + 1 \<le> k \<and> k < length word \<longrightarrow>
             tile_at (tiles b) (r + fst d * k) (c + snd d * k) = Inr EMPTY \<or>
             tile_at (tiles b) (r + fst d * k) (c + snd d * k) = Inr (letter word k)"
      using "1.prems" by simp
    have up: "[i..<length word] = i # [i + 1..<length word]"
      using True by (simp add: upt_conv_Cons)
    from "1.prems" True consider
        (empty) "tile_at (tiles b) (r + fst d * i) (c + snd d * i) = Inr EMPTY"
      | (match) "tile_at (tiles b) (r + fst d * i) (c + snd d * i) = Inr (letter word i)"
                "letter word i \<noteq> EMPTY"
      by (metis le_refl)
    then show ?thesis
    proof cases
      case empty
      from "1.IH"(2)[OF True empty _ rest] True empty show ?thesis
        by (subst scan_loop.simps) (simp add: up)
    next
      case match
      from "1.IH"(1)[OF True match(1) match(2) _ rest] True match show ?thesis
        by (subst scan_loop.simps) (simp add: up)
    qed
  qed
qed

lemma getDeltas_mono: "j \<le> k \<Longrightarrow> fst (getDeltas horizontal) * j \<le> fst (getDeltas horizontal) * k"
  by (simp add: getDeltas_def)

lemma conflict_rejected:
  assumes "conflict b horizontal r c word"
  shows "scan_loop b (getDeltas horizontal) r c word 0 0 0 = Inr None"
proof -
  obtain j x where j: "j < length word"
    and u: "tile_under b horizontal r c j = Inr (Some x)" and x: "x \<noteq> CHR ''.''" "x \<noteq> word ! j"
  proof -
    from assms obtain j where j: "j < length word"
      and cs: "(case tile_under b horizontal r c j of
                  Inr (Some x) \<Rightarrow> x \<noteq> CHR ''.'' \<and> x \<noteq> word ! j | _ \<Rightarrow> False)"
      by (auto simp: conflict_def)
    from cs obtain x where "tile_under b horizontal r c j = Inr (Some x)" "x \<noteq> CHR ''.''" "x \<noteq> word ! j"
      by (cases "tile_under b horizontal r c j") (auto split: option.splits)
    with j that show ?thesis by blast
  qed
  let ?d = "getDeltas horizontal"
  have t: "tile_at (tiles b) (r + fst ?d * j) (c + snd ?d * j) = Inr (Some x)"
    using u by (simp add: tile_under_def)
  then have row: "r + fst ?d * j < length (tiles b)"
    by (auto simp: tile_at_def split: if_splits)
  have rows: "\<forall>k. 0 \<le> k \<and> k \<le> j \<longrightarrow> r + fst ?d * k < length (tiles b)"
  proof (intro allI impI)
    fix k assume "0 \<le> k \<and> k \<le> j"
    then have "k \<le> j" by simp
    then have "fst ?d * k \<le> fst ?d * j" by (rule getDeltas_mono)
    with row show "r + fst ?d * k < length (tiles b)" by linarith
  qed
  have "Some x \<noteq> EMPTY" "Some x \<noteq> letter word j"
    using x j by (simp_all add: letter_def)
  with scan_loop_reject[OF _ j rows t] show ?thesis by simp
qed

lemma scan_on_rows:
  assumes "on_rows b horizontal r word"
  shows "scan_loop b (getDeltas horizontal) r c word 0 0 0 =
           (if fits b horizontal r c word
            then Inr (Some (overlaps_count b horizontal r c word, standalone_count b horizontal r c word))
            else Inr None)"
proof (cases "fits b horizontal r c word")
  case True
  let ?d = "getDeltas horizontal"
  let ?t = "\<lambda>k. tile_at (tiles b) (r + fst ?d * k) (c + snd ?d * k)"
  have good: "\<forall>k. 0 \<le> k \<and> k < length word \<longrightarrow> ?t k = Inr EMPTY \<or> ?t k = Inr (letter word k)"
    using True by (simp add: fits_def tile_under_def)
  have "filter (\<lambda>k. ?t k \<noteq> Inr EMPTY) [0..<length word] =
        filter (\<lambda>k. ?t k \<noteq> Inr EMPTY \<and> ?t k = Inr (letter word k)) [0..<length word]"
    using good by (intro filter_cong) auto
  then show ?thesis
    using True scan_loop_counts[OF good, of 0 0]
    by (simp add: overlaps_count_def standalone_count_def tile_under_def)
next
  case False
  let ?d = "getDeltas horizontal"
  from False obtain j where j: "j < length word"
    and n1: "tile_under b horizontal r c j \<noteq> Inr EMPTY" and n2: "tile_under b horizontal r c j \<noteq> Inr (letter word j)"
    by (auto simp: fits_def)
  have rows: "\<forall>k. 0 \<le> k \<and> k \<le> j \<longrightarrow> r + fst ?d * k < length (tiles b)"
    using assms j by (simp add: on_rows_def)
  then have "r + fst ?d * j < length (tiles b)" by simp
  then obtain v where v: "tile_at (tiles b) (r + fst ?d * j) (c + snd ?d * j) = Inr v"
    using tile_at_row by blast
  have "v \<noteq> EMPTY" "v \<noteq> letter word j"
    using n1 n2 v by (simp_all add: tile_under_def)
  with scan_loop_reject[OF _ j rows v] False show ?thesis by simp
qed

lemma local_rule_on_rows:
  "(conflict b horizontal r c word \<longrightarrow>
      isValidPlacement WORDS horizontal r c word b = (Inr False, b)) \<and>
   (on_rows b horizontal r word \<and> standalone_count b horizontal r c word = 0 \<longrightarrow>
      isValidPlacement WORDS horizontal r c word b = (Inr False, b)) \<and>
   (on_rows b horizontal r word \<and> totalPlacements b > 0 \<and> overlaps_count b horizontal r c word = 0 \<longrightarrow>
      isValidPlacement WORDS horizontal r c word b = (Inr False, b)) \<and>
   (on_rows b horizontal r word \<and> totalPlacements b = 0 \<and> fits b horizontal r c word \<and>
    standalone_count b horizontal r c word > 0 \<longrightarrow>
      isValidPlacement WORDS horizontal r c word b =
        (flip_loop WORDS b horizontal r c word [False, True], b))"
proof (intro conjI impI)
  assume "conflict b horizontal r c word"
  then show "isValidPlacement WORDS horizontal r c word b = (Inr False, b)"
    by (simp add: isValidPlacement_def conflict_rejected)
next
  assume "on_rows b horizontal r word \<and> standalone_count b horizontal r c word = 0"
  then show "isValidPlacement WORDS horizontal r c word b = (Inr False, b)"
    by (simp add: isValidPlacement_def scan_on_rows)
next
  assume "on_rows b horizontal r word \<and> totalPlacements b > 0 \<and> overlaps_count b horizontal r c word = 0"
  then show "isValidPlacement WORDS horizontal r c word b = (Inr False, b)"
    by (simp add: isValidPlacement_def scan_on_rows)
next
  assume "on_rows b horizontal r word \<and> totalPlacements b = 0 \<and> fits b horizontal r c word \<and>
    standalone_count b horizontal r c word > 0"
  then show "isValidPlacement WORDS horizontal r c word b =
        (flip_loop WORDS b horizontal r c word [False, True], b)"
    by (simp add: isValidPlacement_def scan_on_rows)
qed

subsection \<open>The cross-check validates every line of the simulated grid\<close>

lemma to_str_nonempty: "1 \<le> length (to_str v)"
  by (cases v) (simp_all add: to_str_def)

lemma length_concat_to_str: "length xs \<le> length (concat (map to_str xs))"
proof (induction xs)
  case Nil
  then show ?case by simp
next
  case (Cons x xs)
  then show ?case using to_str_nonempty[of x] by simp
qed

lemma spelled_empty: "spelled line s s = []"
  by (simp add: spelled_def)

lemma spelled_snoc:
  assumes "s \<le> sc" and "sc < length line"
  shows "spelled line s (sc + 1) = spelled line s sc @ to_str (line ! sc)"
proof -
  have "take (sc + 1 - s) (drop s line) = take (sc - s) (drop s line) @ [drop s line ! (sc - s)]"
    using assms by (simp add: Suc_diff_le take_Suc_conv_app_nth)
  then show ?thesis using assms by (simp add: spelled_def)
qed

lemma length_spelled:
  assumes "s \<le> j" and "j \<le> length line"
  shows "j - s \<le> length (spelled line s j)"
proof -
  have "length (take (j - s) (drop s line)) = j - s" using assms by simp
  then show ?thesis
    using length_concat_to_str[of "take (j - s) (drop s line)"] by (simp add: spelled_def)
qed

text \<open>A maximal run that reaches the scan position starts where the current run starts.\<close>

lemma run_start_unique:
  assumes run: "is_run line i j"
      and s: "s \<le> j" "s = 0 \<or> line ! (s - 1) = EMPTY"
      and filled: "\<forall>k. s \<le> k \<and> k < j \<longrightarrow> line ! k \<noteq> EMPTY"
      and nonempty: "s < j"
  shows "i = s"
proof (rule ccontr)
  assume ne: "i \<noteq> s"
  from run have ij: "i < j" and cells: "\<forall>k\<in>{i..<j}. line ! k \<noteq> EMPTY"
    and left: "i = 0 \<or> line ! (i - 1) = EMPTY"
    by (simp_all add: is_run_def)
  show False
  proof (cases "i < s")
    case True
    then have "s - 1 \<in> {i..<j}" using s(1) nonempty by auto
    with cells have "line ! (s - 1) \<noteq> EMPTY" by blast
    with s(2) True show False by simp
  next
    case False
    with ne have "s < i" by simp
    then have "s \<le> i - 1 \<and> i - 1 < j" using ij by linarith
    with filled have "line ! (i - 1) \<noteq> EMPTY" by blast
    with left \<open>s < i\<close> show False by simp
  qed
qed

lemma mask_line_nth:
  assumes "length (tiles b) = size_b b" and "sr < size_b b" and "sc < size_b b"
  shows "getWordMask b horizontal r c word (if flip then sc else sr) (if flip then sr else sc) =
           Inr (mask_line b horizontal r c word flip sr ! sc)"
proof -
  have "(if flip then sc else sr) < length (tiles b)" using assms by simp
  then obtain v where "getWordMask b horizontal r c word (if flip then sc else sr) (if flip then sr else sc) = Inr v"
    using getWordMask_row by blast
  then show ?thesis using assms(3) by (cases flip) (simp_all add: mask_line_def)
qed

lemma sc_loop_sound:
  assumes "length (tiles b) = size_b b" and "sr < size_b b"
      and "sc_loop WORDS b horizontal r c word flip sr sc acc = Inr (Some a)"
      and "\<not> (2 \<le> length a \<and> a \<notin> WORD_SET WORDS)"
      and "s \<le> sc" and "sc \<le> size_b b"
      and "s = 0 \<or> mask_line b horizontal r c word flip sr ! (s - 1) = EMPTY"
      and "\<forall>k. s \<le> k \<and> k < sc \<longrightarrow> mask_line b horizontal r c word flip sr ! k \<noteq> EMPTY"
      and "acc = spelled (mask_line b horizontal r c word flip sr) s sc"
      and "is_run (mask_line b horizontal r c word flip sr) i j" and "sc \<le> j" and "i + 2 \<le> j"
  shows "spelled (mask_line b horizontal r c word flip sr) i j \<in> WORD_SET WORDS"
  using assms
proof (induction WORDS b horizontal r c word flip sr sc acc arbitrary: s rule: sc_loop.induct)
  case (1 WORDS b horizontal r c word flip sr sc acc)
  let ?line = "mask_line b horizontal r c word flip sr"
  have len: "length ?line = size_b b" by (simp add: mask_line_def)
  have jlen: "j \<le> size_b b" using "1.prems"(10) len by (simp add: is_run_def)
  text \<open>A run that ends exactly at the scan position is the current run.\<close>
  have here: "spelled ?line i j \<in> WORD_SET WORDS"
    if end_here: "j = sc" and ok: "\<not> (2 \<le> length acc \<and> acc \<notin> WORD_SET WORDS)"
  proof -
    have "s < j" 
    proof (rule ccontr)
      assume "\<not> s < j"
      with end_here "1.prems"(5) have "s = j" by simp
      from "1.prems"(10) have "i < j" "\<forall>k\<in>{i..<j}. ?line ! k \<noteq> EMPTY" by (simp_all add: is_run_def)
      then have "?line ! (j - 1) \<noteq> EMPTY" by simp
      with "1.prems"(7) \<open>s = j\<close> \<open>i < j\<close> show False by simp
    qed
    have "i = s"
      using run_start_unique[OF "1.prems"(10) _ "1.prems"(7) _ \<open>s < j\<close>] "1.prems"(5,8) end_here
      by simp
    then have "spelled ?line i j = acc" using "1.prems"(9) end_here by simp
    moreover have "2 \<le> length (spelled ?line i j)"
      using length_spelled[of i j ?line] "1.prems"(12) jlen len by simp
    ultimately show ?thesis using ok by auto
  qed
  show ?case
  proof (cases "sc < size_b b")
    case False
    with "1.prems"(3) have a: "a = acc" by (subst (asm) sc_loop.simps) simp
    from False "1.prems"(6,11) jlen have "j = sc" by simp
    then show ?thesis using here a "1.prems"(4) by simp
  next
    case True
    note m = mask_line_nth[OF "1.prems"(1,2) True, of horizontal r c word flip]
    show ?thesis
    proof (cases "?line ! sc = EMPTY")
      case empty: True
      from "1.prems"(3) True m empty
      have ok: "\<not> (2 \<le> length acc \<and> acc \<notin> WORD_SET WORDS)"
        and rest: "sc_loop WORDS b horizontal r c word flip sr (sc + 1) [] = Inr (Some a)"
        by (subst (asm) sc_loop.simps, simp split: if_splits)+
      show ?thesis
      proof (cases "j = sc")
        case True
        then show ?thesis using here ok by simp
      next
        case False
        with "1.prems"(11) have "sc + 1 \<le> j" by simp
        have inv1: "sc + 1 = 0 \<or> ?line ! (sc + 1 - 1) = EMPTY" using empty by simp
        have inv2: "\<forall>k. sc + 1 \<le> k \<and> k < sc + 1 \<longrightarrow> ?line ! k \<noteq> EMPTY" by auto
        have inv3: "[] = spelled ?line (sc + 1) (sc + 1)" by (simp add: spelled_empty)
        from "1.IH"(1)[OF True m empty _ "1.prems"(1,2) rest "1.prems"(4) _ _ inv1 inv2 inv3
                          "1.prems"(10) \<open>sc + 1 \<le> j\<close> "1.prems"(12)] ok True
        show ?thesis by simp
      qed
    next
      case letter: False
      from "1.prems"(3) True m letter
      have rest: "sc_loop WORDS b horizontal r c word flip sr (sc + 1) (acc @ to_str (?line ! sc)) = Inr (Some a)"
        by (subst (asm) sc_loop.simps) simp
      have "j \<noteq> sc"
      proof
        assume "j = sc"
        with "1.prems"(10) True len letter show False by (simp add: is_run_def)
      qed
      with "1.prems"(11) have "sc + 1 \<le> j" by simp
      have inv2: "\<forall>k. s \<le> k \<and> k < sc + 1 \<longrightarrow> ?line ! k \<noteq> EMPTY"
        using "1.prems"(8) letter by (auto simp: less_Suc_eq)
      have inv3: "acc @ to_str (?line ! sc) = spelled ?line s (sc + 1)"
        using spelled_snoc[of s sc ?line] "1.prems"(5,9) True len by simp
      from "1.IH"(2)[OF True m letter "1.prems"(1,2) rest "1.prems"(4) _ _ "1.prems"(7) inv2 inv3
                        "1.prems"(10) \<open>sc + 1 \<le> j\<close> "1.prems"(12)] "1.prems"(5) True
      show ?thesis by simp
    qed
  qed
qed

lemma line_valid_from_scan:
  assumes "length (tiles b) = size_b b" and "sr < size_b b"
      and "sc_loop WORDS b horizontal r c word flip sr 0 [] = Inr (Some a)"
      and "\<not> (2 \<le> length a \<and> a \<notin> WORD_SET WORDS)"
  shows "line_valid WORDS (mask_line b horizontal r c word flip sr)"
proof -
  let ?line = "mask_line b horizontal r c word flip sr"
  have "spelled ?line i j \<in> WORD_SET WORDS" if "is_run ?line i j" "i + 2 \<le> j" for i j
    using sc_loop_sound[OF assms(1,2,3,4), of 0 i j] that by (simp add: spelled_empty)
  then show ?thesis by (simp add: line_valid_def)
qed

lemma sr_loop_sound:
  assumes "length (tiles b) = size_b b"
      and "sr_loop WORDS b horizontal r c word flip sr = Inr True"
      and "sr \<le> sr'" and "sr' < size_b b"
  shows "line_valid WORDS (mask_line b horizontal r c word flip sr')"
  using assms
proof (induction WORDS b horizontal r c word flip sr rule: sr_loop.induct)
  case (1 WORDS b horizontal r c word flip sr)
  have lt: "sr < size_b b" using "1.prems"(3,4) by simp
  obtain x where x: "sc_loop WORDS b horizontal r c word flip sr 0 [] = Inr x"
    using sc_loop_total[OF "1.prems"(1) lt] by blast
  from "1.prems"(2) lt x obtain a where a: "x = Some a"
    and ok: "\<not> (2 \<le> length a \<and> a \<notin> WORD_SET WORDS)"
    and rest: "sr_loop WORDS b horizontal r c word flip (sr + 1) = Inr True"
    by (subst (asm) sr_loop.simps) (auto split: option.splits if_splits)
  show ?case
  proof (cases "sr' = sr")
    case True
    with line_valid_from_scan[OF "1.prems"(1) lt x[unfolded a] ok] show ?thesis by simp
  next
    case False
    with "1.prems"(3) have "sr + 1 \<le> sr'" by simp
    from "1.IH"[OF lt x a ok "1.prems"(1) rest this "1.prems"(4)] show ?thesis .
  qed
qed

lemma cross_check_sound:
  assumes "length (tiles b) = size_b b"
      and "flip_loop WORDS b horizontal r c word [False, True] = Inr True"
      and "sr < size_b b"
  shows "line_valid WORDS (mask_line b horizontal r c word flip sr)"
proof -
  obtain x where x: "sr_loop WORDS b horizontal r c word False 0 = Inr x"
    using sr_loop_total[OF assms(1)] by blast
  obtain y where y: "sr_loop WORDS b horizontal r c word True 0 = Inr y"
    using sr_loop_total[OF assms(1)] by blast
  from assms(2) x y have "x" "y" by (auto split: if_splits bool.splits)
  with x y sr_loop_sound[OF assms(1) _ _ assms(3), of WORDS horizontal r c word _ 0]
  show ?thesis by (cases flip) simp_all
qed

lemma valid_verdict:
  assumes "isValidPlacement WORDS horizontal r c word b = (Inr True, b)"
  shows "\<exists>overlaps standalone.
           scan_loop b (getDeltas horizontal) r c word 0 0 0 = Inr (Some (overlaps, standalone)) \<and>
           0 < standalone \<and> (totalPlacements b = 0 \<or> 0 < overlaps) \<and>
           flip_loop WORDS b horizontal r c word [False, True] = Inr True"
  using assms
  by (auto simp: isValidPlacement_def split: sum.splits option.splits if_splits)

subsection \<open>Committing a validated placement\<close>

lemma scan_loop_fits:
  assumes "scan_loop b d r c word i overlaps standalone = Inr (Some x)"
      and "i \<le> k" and "k < length word"
  shows "tile_at (tiles b) (r + fst d * k) (c + snd d * k) = Inr EMPTY \<or>
         tile_at (tiles b) (r + fst d * k) (c + snd d * k) = Inr (letter word k)"
  using assms
proof (induction b d r c word i overlaps standalone rule: scan_loop.induct)
  case (1 b d r c word i overlaps standalone)
  have i: "i < length word" using "1.prems" by simp
  from "1.prems"(1) i obtain u where u: "tile_at (tiles b) (r + fst d * i) (c + snd d * i) = Inr u"
    by (subst (asm) scan_loop.simps) (auto split: sum.splits)
  show ?case
  proof (cases "u = EMPTY")
    case True
    with "1.prems"(1) i u have rest: "scan_loop b d r c word (i + 1) overlaps (standalone + 1) = Inr (Some x)"
      by (subst (asm) scan_loop.simps) simp
    show ?thesis
    proof (cases "k = i")
      case True
      with u \<open>u = EMPTY\<close> show ?thesis by simp
    next
      case False
      with "1.prems"(2) have "i + 1 \<le> k" by simp
      from "1.IH"(2)[OF i u _ rest this "1.prems"(3)] True show ?thesis by simp
    qed
  next
    case False
    with "1.prems"(1) i u have m: "u = letter word i"
      and rest: "scan_loop b d r c word (i + 1) (overlaps + 1) standalone = Inr (Some x)"
      by (subst (asm) scan_loop.simps, simp split: if_splits)+
    show ?thesis
    proof (cases "k = i")
      case True
      with u m show ?thesis by simp
    next
      case ne: False
      with "1.prems"(2) have "i + 1 \<le> k" by simp
      from "1.IH"(1)[OF i u False _ rest this "1.prems"(3)] m show ?thesis by simp
    qed
  qed
qed

lemma valid_fits:
  assumes "isValidPlacement WORDS horizontal r c word b = (Inr True, b)"
  shows "fits b horizontal r c word"
proof -
  from valid_verdict[OF assms] obtain x where
    "scan_loop b (getDeltas horizontal) r c word 0 0 0 = Inr (Some x)" by blast
  from scan_loop_fits[OF this] show ?thesis
    by (simp add: fits_def tile_under_def)
qed

lemma tile_at_Some:
  "tile_at t r c = Inr (Some x) \<Longrightarrow> r < length t \<and> c < length (t ! r) \<and> t ! r ! c = Some x"
  by (auto simp: tile_at_def split: if_splits)

lemma fits_in_grid:
  assumes "wf_board b" and "fits b horizontal r c word"
  shows "in_grid (size_b b) horizontal r c word"
proof -
  let ?d = "getDeltas horizontal"
  have "r + fst ?d * i < size_b b \<and> c + snd ?d * i < size_b b" if i: "i < length word" for i
  proof -
    from assms(2) i have "tile_under b horizontal r c i = Inr EMPTY \<or>
        tile_under b horizontal r c i = Inr (letter word i)"
      by (simp add: fits_def)
    then obtain x where "tile_at (tiles b) (r + fst ?d * i) (c + snd ?d * i) = Inr (Some x)"
      using i by (auto simp: tile_under_def letter_def)
    from tile_at_Some[OF this] assms(1) show ?thesis
      by (auto simp: wf_board_def)
  qed
  then show ?thesis by (simp add: in_grid_def)
qed

lemma set_tile_wf:
  assumes "length t = n" and "\<forall>row\<in>set t. length row = n \<and> None \<notin> set row"
      and "r < n" and "c < n" and "v \<noteq> None"
  shows "\<exists>t'. set_tile t r c v = Inr t' \<and> length t' = n \<and>
              (\<forall>row\<in>set t'. length row = n \<and> None \<notin> set row)"
proof -
  have row: "length (t ! r) = n" "None \<notin> set (t ! r)"
    using assms(1,2,3) by simp_all
  let ?row = "(t ! r)[c := v]"
  have new: "length ?row = n \<and> None \<notin> set ?row"
  proof -
    have "set ?row \<subseteq> insert v (set (t ! r))" by (rule set_update_subset_insert)
    with row assms(5) show ?thesis by auto
  qed
  have st: "set_tile t r c v = Inr (t[r := ?row])"
    using assms(1,3,4) row by (simp add: set_tile_def write_at_def)
  have "set (t[r := ?row]) \<subseteq> insert ?row (set t)" by (rule set_update_subset_insert)
  with new assms(2) have "\<forall>row\<in>set (t[r := ?row]). length row = n \<and> None \<notin> set row"
    by blast
  with st assms(1) show ?thesis by simp
qed

lemma place_loop_wf:
  assumes "length t = n" and "\<forall>row\<in>set t. length row = n \<and> None \<notin> set row"
      and "\<forall>j. i \<le> j \<and> j < length word \<longrightarrow> r + fst d * j < n \<and> c + snd d * j < n"
  shows "\<exists>t'. place_loop t d r c word i = (Inr (), t') \<and> length t' = n \<and>
              (\<forall>row\<in>set t'. length row = n \<and> None \<notin> set row)"
  using assms
proof (induction t d r c word i rule: place_loop.induct)
  case (1 t d r c word i)
  show ?case
  proof (cases "i < length word")
    case False
    with "1.prems" show ?thesis by (subst place_loop.simps) simp
  next
    case True
    with "1.prems"(3) have rc: "r + fst d * i < n" "c + snd d * i < n" by simp_all
    have "letter word i \<noteq> None" using True by (simp add: letter_def)
    from set_tile_wf[OF "1.prems"(1,2) rc this] obtain t1 where
      t1: "set_tile t (r + fst d * i) (c + snd d * i) (letter word i) = Inr t1"
      and w1: "length t1 = n" "\<forall>row\<in>set t1. length row = n \<and> None \<notin> set row"
      by blast
    have rest: "\<forall>j. i + 1 \<le> j \<and> j < length word \<longrightarrow> r + fst d * j < n \<and> c + snd d * j < n"
      using "1.prems"(3) by simp
    from "1.IH"[OF True t1 w1 rest] True t1 show ?thesis
      by (subst place_loop.simps) simp
  qed
qed

lemma commit_wf:
  assumes "wf_board b" and "in_grid (size_b b) horizontal r c word"
  shows "\<exists>b'. actuallyPlaceWord word horizontal r c b = (Inr (), b') \<and> wf_board b' \<and>
              size_b b' = size_b b \<and> totalPlacements b' = totalPlacements b + 1"
proof -
  have "\<forall>j. 0 \<le> j \<and> j < length word \<longrightarrow>
          r + fst (getDeltas horizontal) * j < size_b b \<and> c + snd (getDeltas horizontal) * j < size_b b"
    using assms(2) by (simp add: in_grid_def)
  from place_loop_wf[OF _ _ this, of "tiles b"] assms(1)
  obtain t' where "place_loop (tiles b) (getDeltas horizontal) r c word 0 = (Inr (), t')"
    "length t' = size_b b" "\<forall>row\<in>set t'. length row = size_b b \<and> None \<notin> set row"
    by (auto simp: wf_board_def)
  then show ?thesis
    by (simp add: actuallyPlaceWord_def wf_board_def)
qed

lemma wf_tile_at:
  assumes "wf_board b" and "sr < size_b b" and "sc < size_b b"
  shows "tile_at (tiles b) sr sc = Inr (tiles b ! sr ! sc)"
  using assms by (simp add: wf_board_def tile_at_def)

lemma commit_lines:
  assumes "wf_board b" and "wf_board b'" and "size_b b' = size_b b"
      and "b' = snd (actuallyPlaceWord word horizontal r c b)"
      and "sr < size_b b"
  shows "tiles b' ! sr = mask_line b horizontal r c word False sr"
    and "column_of (tiles b') sr = mask_line b horizontal r c word True sr"
proof -
  have lenb: "length (tiles b) = size_b b" using assms(1) by (simp add: wf_board_def)
  have cell: "tiles b' ! x ! y =
      (case getWordMask b horizontal r c word x y of Inl e \<Rightarrow> None | Inr char \<Rightarrow> char)"
    if "x < size_b b" "y < size_b b" for x y
  proof -
    have "getWordMask b horizontal r c word x y = tile_at (tiles b') x y"
      using commit_is_mask[of x b horizontal r c word y] that lenb assms(4) by simp
    also have "\<dots> = Inr (tiles b' ! x ! y)"
      using wf_tile_at[OF assms(2)] that assms(3) by simp
    finally show ?thesis by simp
  qed
  show "tiles b' ! sr = mask_line b horizontal r c word False sr"
  proof (rule nth_equalityI)
    show "length (tiles b' ! sr) = length (mask_line b horizontal r c word False sr)"
      using assms(2,3,5) by (simp add: wf_board_def mask_line_def)
  next
    fix i assume "i < length (tiles b' ! sr)"
    then have "i < size_b b" using assms(2,3,5) by (simp add: wf_board_def)
    then show "tiles b' ! sr ! i = mask_line b horizontal r c word False sr ! i"
      using cell[OF assms(5)] by (simp add: mask_line_def)
  qed
  show "column_of (tiles b') sr = mask_line b horizontal r c word True sr"
  proof (rule nth_equalityI)
    show "length (column_of (tiles b') sr) = length (mask_line b horizontal r c word True sr)"
      using assms(2,3) by (simp add: wf_board_def mask_line_def column_of_def)
  next
    fix i assume "i < length (column_of (tiles b') sr)"
    then have i: "i < size_b b" using assms(2,3) by (simp add: wf_board_def column_of_def)
    then have "i < length (tiles b')" using assms(2,3) by (simp add: wf_board_def)
    then show "column_of (tiles b') sr ! i = mask_line b horizontal r c word True sr ! i"
      using cell[OF i assms(5)] i by (simp add: mask_line_def column_of_def)
  qed
qed

lemma commit_valid:
  assumes "wf_board b"
      and "isValidPlacement WORDS horizontal r c word b = (Inr True, b)"
  shows "\<exists>b'. actuallyPlaceWord word horizontal r c b = (Inr (), b') \<and> wf_board b' \<and>
              size_b b' = size_b b \<and> totalPlacements b' = totalPlacements b + 1 \<and>
              grid_valid WORDS b'"
proof -
  have "in_grid (size_b b) horizontal r c word"
    using fits_in_grid[OF assms(1) valid_fits[OF assms(2)]] .
  from commit_wf[OF assms(1) this] obtain b' where
    c: "actuallyPlaceWord word horizontal r c b = (Inr (), b')" and w: "wf_board b'"
    and n: "size_b b' = size_b b" and t: "totalPlacements b' = totalPlacements b + 1"
    by blast
  have b': "b' = snd (actuallyPlaceWord word horizontal r c b)" using c by simp
  have lenb: "length (tiles b) = size_b b" using assms(1) by (simp add: wf_board_def)
  from valid_verdict[OF assms(2)] have
    x: "flip_loop WORDS b horizontal r c word [False, True] = Inr True" by blast
  have "grid_valid WORDS b'"
    unfolding grid_valid_def
  proof (intro conjI ballI)
    fix sr assume "sr \<in> {..<size_b b'}"
    then have sr: "sr < size_b b" using n by simp
    show "line_valid WORDS (tiles b' ! sr)"
      using commit_lines(1)[OF assms(1) w n b' sr] cross_check_sound[OF lenb x sr, of False]
      by simp
  next
    fix sr assume "sr \<in> {..<size_b b'}"
    then have sr: "sr < size_b b" using n by simp
    show "line_valid WORDS (column_of (tiles b') sr)"
      using commit_lines(2)[OF assms(1) w n b' sr] cross_check_sound[OF lenb x sr, of True]
      by simp
  qed
  with c w n t show ?thesis by blast
qed

subsection \<open>The local rule on feasible placements\<close>

lemma feasible_on_rows:
  assumes "wf_board b" and "feasible (size_b b) word (horizontal, r, c)"
  shows "on_rows b horizontal r word"
proof -
  have "in_grid (size_b b) horizontal r c word"
    using assms(2) by (rule feasible_in_grid)
  with assms(1) show ?thesis
    by (simp add: in_grid_def on_rows_def wf_board_def)
qed

lemma feasible_tile_under:
  assumes "wf_board b" and "feasible (size_b b) word (horizontal, r, c)" and "i < length word"
  shows "\<exists>x. tile_under b horizontal r c i = Inr (Some x)"
proof -
  let ?d = "getDeltas horizontal"
  have "in_grid (size_b b) horizontal r c word"
    using assms(2) by (rule feasible_in_grid)
  with assms(3) have rc: "r + fst ?d * i < size_b b" "c + snd ?d * i < size_b b"
    by (simp_all add: in_grid_def)
  have row: "tiles b ! (r + fst ?d * i) \<in> set (tiles b)"
    using assms(1) rc by (simp add: wf_board_def)
  with assms(1) have len: "length (tiles b ! (r + fst ?d * i)) = size_b b"
    and nn: "None \<notin> set (tiles b ! (r + fst ?d * i))"
    by (simp_all add: wf_board_def)
  have "tiles b ! (r + fst ?d * i) ! (c + snd ?d * i) \<in> set (tiles b ! (r + fst ?d * i))"
    using len rc by simp
  with nn obtain x where "tiles b ! (r + fst ?d * i) ! (c + snd ?d * i) = Some x"
    by (cases "tiles b ! (r + fst ?d * i) ! (c + snd ?d * i)") auto
  then show ?thesis
    using wf_tile_at[OF assms(1) rc] by (simp add: tile_under_def)
qed

lemma feasible_fits_iff:
  assumes "wf_board b" and "feasible (size_b b) word (horizontal, r, c)"
  shows "fits b horizontal r c word \<longleftrightarrow> \<not> conflict b horizontal r c word"
proof
  assume f: "fits b horizontal r c word"
  show "\<not> conflict b horizontal r c word"
  proof
    assume "conflict b horizontal r c word"
    then obtain i where i: "i < length word"
      and cs: "(case tile_under b horizontal r c i of
                  Inr (Some x) \<Rightarrow> x \<noteq> CHR ''.'' \<and> x \<noteq> word ! i | _ \<Rightarrow> False)"
      by (auto simp: conflict_def)
    from f i have "tile_under b horizontal r c i = Inr EMPTY \<or>
        tile_under b horizontal r c i = Inr (letter word i)" by (simp add: fits_def)
    with cs i show False by (auto simp: letter_def)
  qed
next
  assume n: "\<not> conflict b horizontal r c word"
  show "fits b horizontal r c word"
    unfolding fits_def
  proof
    fix i assume "i \<in> {..<length word}"
    then have i: "i < length word" by simp
    from feasible_tile_under[OF assms i] obtain x where
      x: "tile_under b horizontal r c i = Inr (Some x)" by blast
    have "\<not> (x \<noteq> CHR ''.'' \<and> x \<noteq> word ! i)"
    proof
      assume "x \<noteq> CHR ''.'' \<and> x \<noteq> word ! i"
      with x i have "conflict b horizontal r c word"
        unfolding conflict_def by (intro bexI[of _ i]) simp_all
      with n show False by simp
    qed
    with x i show "tile_under b horizontal r c i = Inr EMPTY \<or>
        tile_under b horizontal r c i = Inr (letter word i)"
      by (auto simp: letter_def)
  qed
qed

text \<open>
  C2: the local admissibility rule, for the placements the validator is given: the
  geometrically feasible ones on a well-formed board (the bounds of the two nested \<open>for\<close>
  statements of \<open>makePuzzle\<close> let no other through). \<open>isValidPlacement\<close> returns false
  whenever some occupied tile under the word differs from the word's letter at that offset,
  whenever the count of empty positions covered is 0, and whenever the placement counter is
  positive and the count of matching occupied positions is 0. With the counter at 0 the
  overlap requirement does not apply: a word without conflict that covers an empty position
  gets the verdict of the global cross-check, whatever its count of overlaps.
\<close>

theorem local_rule:
  assumes "wf_board b" and "feasible (size_b b) word (horizontal, r, c)"
  shows
  "(conflict b horizontal r c word \<longrightarrow>
      isValidPlacement WORDS horizontal r c word b = (Inr False, b)) \<and>
   (standalone_count b horizontal r c word = 0 \<longrightarrow>
      isValidPlacement WORDS horizontal r c word b = (Inr False, b)) \<and>
   (totalPlacements b > 0 \<and> overlaps_count b horizontal r c word = 0 \<longrightarrow>
      isValidPlacement WORDS horizontal r c word b = (Inr False, b)) \<and>
   (totalPlacements b = 0 \<and> \<not> conflict b horizontal r c word \<and>
    standalone_count b horizontal r c word > 0 \<longrightarrow>
      isValidPlacement WORDS horizontal r c word b =
        (flip_loop WORDS b horizontal r c word [False, True], b))"
proof -
  have rows: "on_rows b horizontal r word"
    using assms by (rule feasible_on_rows)
  have fits: "fits b horizontal r c word \<longleftrightarrow> \<not> conflict b horizontal r c word"
    using assms by (rule feasible_fits_iff)
  show ?thesis
    using local_rule_on_rows[of b horizontal r c word WORDS] rows fits by blast
qed

lemmas local_rule_eval = conflict_def standalone_count_def overlaps_count_def tile_under_def
  wf_board_def feasible_def getDeltas_def tile_at_def letter_def lessThan_Suc lessThan_nat_numeral
  upt_conv_Cons

theorem local_rule_witness:
  "isValidPlacement [''at''] True 0 0 ''at''
      \<lparr>size_b = 2, tiles = [[Some CHR ''c'', EMPTY], [EMPTY, EMPTY]], totalPlacements = 1\<rparr> =
     (Inr False, \<lparr>size_b = 2, tiles = [[Some CHR ''c'', EMPTY], [EMPTY, EMPTY]], totalPlacements = 1\<rparr>) \<and>
   isValidPlacement [''at''] True 0 0 ''at''
      \<lparr>size_b = 2, tiles = [[Some CHR ''a'', Some CHR ''t''], [EMPTY, EMPTY]], totalPlacements = 1\<rparr> =
     (Inr False, \<lparr>size_b = 2, tiles = [[Some CHR ''a'', Some CHR ''t''], [EMPTY, EMPTY]], totalPlacements = 1\<rparr>) \<and>
   isValidPlacement [''at''] False 0 1 ''at''
      \<lparr>size_b = 2, tiles = [[Some CHR ''c'', EMPTY], [EMPTY, EMPTY]], totalPlacements = 1\<rparr> =
     (Inr False, \<lparr>size_b = 2, tiles = [[Some CHR ''c'', EMPTY], [EMPTY, EMPTY]], totalPlacements = 1\<rparr>) \<and>
   overlaps_count (empty_board 2) True 0 0 ''at'' = 0 \<and>
   isValidPlacement [''at''] True 0 0 ''at'' (empty_board 2) = (Inr True, empty_board 2)"
proof -
  let ?bc = "\<lparr>size_b = 2, tiles = [[Some CHR ''c'', EMPTY], [EMPTY, EMPTY]], totalPlacements = 1\<rparr>"
  let ?ba = "\<lparr>size_b = 2, tiles = [[Some CHR ''a'', Some CHR ''t''], [EMPTY, EMPTY]], totalPlacements = 1\<rparr>"
  have wc: "wf_board ?bc" and wa: "wf_board ?ba"
    by (simp_all add: wf_board_def)
  have we: "wf_board (empty_board 2)" by (rule wf_empty_board)
  have fh: "feasible (size_b ?bc) ''at'' (True, 0, 0)" "feasible (size_b ?ba) ''at'' (True, 0, 0)"
    "feasible (size_b ?bc) ''at'' (False, 0, 1)" "feasible (size_b (empty_board 2)) ''at'' (True, 0, 0)"
    by (simp_all add: feasible_def empty_board_def)
  have 1: "conflict ?bc True 0 0 ''at''"
    by (simp add: local_rule_eval)
  have 2: "standalone_count ?ba True 0 0 ''at'' = 0"
    by (simp add: local_rule_eval)
  have 3: "totalPlacements ?bc > 0 \<and> overlaps_count ?bc False 0 1 ''at'' = 0"
    by (simp add: local_rule_eval)
  have 4: "totalPlacements (empty_board 2) = 0 \<and> \<not> conflict (empty_board 2) True 0 0 ''at'' \<and>
           standalone_count (empty_board 2) True 0 0 ''at'' > 0 \<and>
           overlaps_count (empty_board 2) True 0 0 ''at'' = 0"
    by (simp add: local_rule_eval empty_board_def)
  have 5: "flip_loop [''at''] (empty_board 2) True 0 0 ''at'' [False, True] = Inr True"
    by (simp add: empty_board_def sr_loop.simps sc_loop.simps getWordMask_def tile_at_def letter_def
          WORD_SET_def to_str_def numeral_2_eq_2)
  show ?thesis
    using 1 2 3 4 5
      local_rule [OF wc fh(1), of "[''at'']"]
      local_rule [OF wa fh(2), of "[''at'']"]
      local_rule [OF wc fh(3), of "[''at'']"]
      local_rule [OF we fh(4), of "[''at'']"]
    by simp
qed

subsection \<open>Cycles and runs\<close>

lemma index_in_set: "index xs i = Some x \<Longrightarrow> x \<in> set xs"
proof -
  assume a: "index xs i = Some x"
  then have "0 \<le> i" "i < int (length xs)" "x = xs ! nat i"
    by (auto simp: index_def split: if_splits)
  then have "nat i < length xs" by simp
  with \<open>x = xs ! nat i\<close> show ?thesis by simp
qed

lemma draw_in_set: "draw rnd k xs = Some x \<Longrightarrow> x \<in> set xs"
  unfolding draw_def by (rule index_in_set)

lemma draw_total:
  assumes "xs \<noteq> []" and "0 \<le> rnd k" and "rnd k < 1"
  shows "\<exists>x. draw rnd k xs = Some x"
proof -
  have pos: "0 < real (length xs)" using assms(1) by simp
  have "0 \<le> rnd k * real (length xs)" using assms(2) by simp
  then have lo: "0 \<le> \<lfloor>rnd k * real (length xs)\<rfloor>" by simp
  have "rnd k * real (length xs) < 1 * real (length xs)"
    using assms(3) pos by (rule mult_strict_right_mono)
  then have "rnd k * real (length xs) < real_of_int (int (length xs))" by simp
  then have hi: "\<lfloor>rnd k * real (length xs)\<rfloor> < int (length xs)" by (simp only: floor_less_iff)
  from lo hi show ?thesis by (simp add: draw_def index_def)
qed

lemma cycle_step:
  assumes "wf_board b" and "cycle WORDS rnd (b, k) = Inr (b', k')"
  shows "(b' = b \<and> k' = k + 1) \<or>
         (\<exists>word horizontal r c. word \<in> set WORDS \<and>
            feasible (size_b b) word (horizontal, r, c) \<and>
            isValidPlacement WORDS horizontal r c word b = (Inr True, b) \<and>
            actuallyPlaceWord word horizontal r c b = (Inr (), b') \<and> k' = k + 2)"
proof -
  from assms(2) obtain word where word: "draw rnd k WORDS = Some word"
    by (auto simp: cycle_def split: option.splits)
  let ?starts = "horizontal_starts (size_b b) word @ vertical_starts (size_b b) word"
  let ?valid = "filter (\<lambda>(horizontal, r, c). isValidPlacement WORDS horizontal r c word b = (Inr True, b)) ?starts"
  have lenb: "length (tiles b) = size_b b" using assms(1) by (simp add: wf_board_def)
  have "\<forall>p\<in>set ?starts. feasible (size_b b) word p" using starts_feasible by blast
  from collect_all[OF lenb this, of WORDS "[]"]
  have col: "collect WORDS word ?starts [] b = (Inr ?valid, b)" by simp
  show ?thesis
  proof (cases "?valid = []")
    case True
    with assms(2) word col show ?thesis by (simp add: cycle_def)
  next
    case False
    with assms(2) word col obtain horizontal r c u where
      p: "draw rnd (k + 1) ?valid = Some (horizontal, r, c)"
      and a: "actuallyPlaceWord word horizontal r c b = (Inr u, b')" and k': "k' = k + 2"
      by (auto simp: cycle_def split: option.splits prod.splits sum.splits)
    from draw_in_set[OF p] have "(horizontal, r, c) \<in> set ?starts"
      and v: "isValidPlacement WORDS horizontal r c word b = (Inr True, b)" by auto
    then have "feasible (size_b b) word (horizontal, r, c)" using starts_feasible by blast
    with v a k' draw_in_set[OF word] show ?thesis by auto
  qed
qed

lemma cycle_total:
  assumes "wf_board b" and "WORDS \<noteq> []" and "\<forall>k. 0 \<le> rnd k \<and> rnd k < 1"
  shows "\<exists>s'. cycle WORDS rnd (b, k) = Inr s'"
proof -
  from draw_total[OF assms(2)] assms(3) obtain word where word: "draw rnd k WORDS = Some word"
    by blast
  let ?starts = "horizontal_starts (size_b b) word @ vertical_starts (size_b b) word"
  let ?valid = "filter (\<lambda>(horizontal, r, c). isValidPlacement WORDS horizontal r c word b = (Inr True, b)) ?starts"
  have lenb: "length (tiles b) = size_b b" using assms(1) by (simp add: wf_board_def)
  have "\<forall>p\<in>set ?starts. feasible (size_b b) word p" using starts_feasible by blast
  from collect_all[OF lenb this, of WORDS "[]"]
  have col: "collect WORDS word ?starts [] b = (Inr ?valid, b)" by simp
  show ?thesis
  proof (cases "?valid = []")
    case True
    with word col show ?thesis by (simp add: cycle_def)
  next
    case False
    from draw_total[OF False] assms(3) obtain p where p: "draw rnd (k + 1) ?valid = Some p"
      by blast
    obtain horizontal r c where pe: "p = (horizontal, r, c)" by (cases p) auto
    from draw_in_set[OF p] pe
    have v: "isValidPlacement WORDS horizontal r c word b = (Inr True, b)" by auto
    from commit_valid[OF assms(1) v] obtain b' where
      "actuallyPlaceWord word horizontal r c b = (Inr (), b')" by blast
    with word col False p pe show ?thesis by (simp add: cycle_def)
  qed
qed

lemma makePuzzle_loop_snoc:
  "i \<le> cycles \<Longrightarrow>
   makePuzzle_loop WORDS rnd (Suc cycles) i s =
     (case makePuzzle_loop WORDS rnd cycles i s of
        Inl e \<Rightarrow> Inl e
      | Inr s' \<Rightarrow> cycle WORDS rnd s')"
proof (induction WORDS rnd cycles i s rule: makePuzzle_loop.induct)
  case (1 WORDS rnd cycles i s)
  show ?case
  proof (cases "i < cycles")
    case False
    with "1.prems" have i: "i = cycles" by simp
    have L: "makePuzzle_loop WORDS rnd (Suc cycles) cycles s =
        (case cycle WORDS rnd s of Inl e \<Rightarrow> Inl e
         | Inr s' \<Rightarrow> makePuzzle_loop WORDS rnd (Suc cycles) (cycles + 1) s')"
      by (subst makePuzzle_loop.simps) simp
    have L2: "makePuzzle_loop WORDS rnd (Suc cycles) (Suc cycles) s' = Inr s'" for s'
      by (subst makePuzzle_loop.simps) simp
    have R: "makePuzzle_loop WORDS rnd cycles cycles s = Inr s"
      by (subst makePuzzle_loop.simps) simp
    show ?thesis
      unfolding i L R by (simp add: L2 split: sum.splits)
  next
    case True
    have L: "makePuzzle_loop WORDS rnd (Suc cycles) i s =
        (case cycle WORDS rnd s of Inl e \<Rightarrow> Inl e
         | Inr s' \<Rightarrow> makePuzzle_loop WORDS rnd (Suc cycles) (i + 1) s')"
      using True by (subst makePuzzle_loop.simps) simp
    have R: "makePuzzle_loop WORDS rnd cycles i s =
        (case cycle WORDS rnd s of Inl e \<Rightarrow> Inl e
         | Inr s' \<Rightarrow> makePuzzle_loop WORDS rnd cycles (i + 1) s')"
      using True by (subst makePuzzle_loop.simps) simp
    show ?thesis
    proof (cases "cycle WORDS rnd s")
      case (Inl e)
      then show ?thesis unfolding L R by simp
    next
      case (Inr s')
      from "1.IH"[OF True Inr] True have
        "makePuzzle_loop WORDS rnd (Suc cycles) (i + 1) s' =
           (case makePuzzle_loop WORDS rnd cycles (i + 1) s' of Inl e \<Rightarrow> Inl e | Inr s' \<Rightarrow> cycle WORDS rnd s')"
        by simp
      with Inr show ?thesis unfolding L R by simp
    qed
  qed
qed

lemma makePuzzle_Suc:
  "makePuzzle WORDS rnd (Suc cycles) s =
     (case makePuzzle WORDS rnd cycles s of Inl e \<Rightarrow> Inl e | Inr s' \<Rightarrow> cycle WORDS rnd s')"
  by (cases s) (simp add: makePuzzle_def makePuzzle_loop_snoc)

lemma makePuzzle_0: "makePuzzle WORDS rnd 0 (b, k) = Inr (b\<lparr>totalPlacements := 0\<rparr>, k)"
  by (simp add: makePuzzle_def makePuzzle_loop.simps)

subsection \<open>The grid is valid after every commit\<close>

lemma line_valid_empty: "\<forall>k<length line. line ! k = EMPTY \<Longrightarrow> line_valid WORDS line"
  by (auto simp: line_valid_def is_run_def)

lemma grid_valid_empty: "grid_valid WORDS (empty_board n)"
  unfolding grid_valid_def
proof (intro conjI ballI)
  fix r assume "r \<in> {..<size_b (empty_board n)}"
  then show "line_valid WORDS (tiles (empty_board n) ! r)"
    by (intro line_valid_empty) (simp add: empty_board_def)
next
  fix c assume "c \<in> {..<size_b (empty_board n)}"
  then show "line_valid WORDS (column_of (tiles (empty_board n)) c)"
    by (intro line_valid_empty) (simp add: empty_board_def column_of_def)
qed

lemma cycle_invariant:
  assumes "wf_board b" and "cycle WORDS rnd (b, k) = Inr (b', k')" and "grid_valid WORDS b"
  shows "wf_board b' \<and> size_b b' = size_b b \<and> grid_valid WORDS b'"
proof -
  from cycle_step[OF assms(1,2)] show ?thesis
  proof
    assume "b' = b \<and> k' = k + 1"
    with assms show ?thesis by simp
  next
    assume "\<exists>word horizontal r c. word \<in> set WORDS \<and>
            feasible (size_b b) word (horizontal, r, c) \<and>
            isValidPlacement WORDS horizontal r c word b = (Inr True, b) \<and>
            actuallyPlaceWord word horizontal r c b = (Inr (), b') \<and> k' = k + 2"
    then obtain word horizontal r c where
      v: "isValidPlacement WORDS horizontal r c word b = (Inr True, b)"
      and a: "actuallyPlaceWord word horizontal r c b = (Inr (), b')" by blast
    from commit_valid[OF assms(1) v] a show ?thesis by auto
  qed
qed

lemma run_invariant:
  "makePuzzle WORDS rnd cycles (empty_board n, k) = Inr (b, k')
   \<Longrightarrow> wf_board b \<and> size_b b = n \<and> grid_valid WORDS b"
proof (induction cycles arbitrary: b k')
  case 0
  then have "b = empty_board n" by (simp add: makePuzzle_0 empty_board_def)
  then show ?case using wf_empty_board grid_valid_empty by (simp add: empty_board_def)
next
  case (Suc cycles)
  from Suc.prems obtain bm km where
    m: "makePuzzle WORDS rnd cycles (empty_board n, k) = Inr (bm, km)"
    and c: "cycle WORDS rnd (bm, km) = Inr (b, k')"
    by (auto simp: makePuzzle_Suc split: sum.splits)
  from Suc.IH[OF m] cycle_invariant[OF _ c] show ?case by simp
qed

lemma run_total:
  assumes "WORDS \<noteq> []" and "\<forall>k. 0 \<le> rnd k \<and> rnd k < 1"
  shows "\<exists>b k'. makePuzzle WORDS rnd cycles (empty_board n, k) = Inr (b, k')"
proof (induction cycles)
  case 0
  then show ?case by (simp add: makePuzzle_0)
next
  case (Suc cycles)
  then obtain bm km where m: "makePuzzle WORDS rnd cycles (empty_board n, k) = Inr (bm, km)"
    by blast
  from run_invariant[OF m] have "wf_board bm" by simp
  from cycle_total[OF this assms, of km] m show ?case
    by (auto simp: makePuzzle_Suc)
qed

text \<open>
  C1: in a generation run from the all-empty grid, the grid after any number of cycles, that
  is after every committed placement, is valid: every maximal horizontal and every maximal
  vertical run of two or more non-empty tiles spells a member of the lexicon. (By
  \<open>makePuzzle_Suc\<close> the grid after \<open>cycles + 1\<close> cycles is the grid after \<open>cycles\<close> cycles
  put through one more cycle; by \<open>run_total\<close> a run over a non-empty word list, with draws in
  \<open>[0, 1)\<close>, raises no exception, so there is such a grid for every number of cycles.)
\<close>

theorem grid_always_valid:
  assumes "makePuzzle WORDS rnd cycles (empty_board n, k) = Inr (b, k')"
  shows "grid_valid WORDS b"
  using run_invariant[OF assms] by simp

lemmas run_eval = makePuzzle_def makePuzzle_loop.simps cycle_def draw_def index_def
     horizontal_starts_def vertical_starts_def upto.simps empty_board_def
     isValidPlacement_def scan_loop.simps sr_loop.simps sc_loop.simps getWordMask_def
     getDeltas_def tile_at_def letter_def WORD_SET_def to_str_def actuallyPlaceWord_def
     place_loop.simps set_tile_def write_at_def numeral_2_eq_2

theorem grid_always_valid_witness:
  "makePuzzle [''at'', ''to''] (\<lambda>k. if k = 2 then 1 / 2 else 0) 2 (empty_board 2, 0) =
     Inr (\<lparr>size_b = 2, tiles = [[Some CHR ''a'', Some CHR ''t''], [EMPTY, Some CHR ''o'']], totalPlacements = 2\<rparr>, 4) \<and>
   grid_valid [''at'', ''to'']
     \<lparr>size_b = 2, tiles = [[Some CHR ''a'', Some CHR ''t''], [EMPTY, Some CHR ''o'']], totalPlacements = 2\<rparr> \<and>
   is_run [Some CHR ''t'', Some CHR ''o''] 0 2 \<and> spelled [Some CHR ''t'', Some CHR ''o''] 0 2 = ''to''"
proof -
  have run: "makePuzzle [''at'', ''to''] (\<lambda>k. if k = 2 then 1 / 2 else 0) 2 (empty_board 2, 0) =
     Inr (\<lparr>size_b = 2, tiles = [[Some CHR ''a'', Some CHR ''t''], [EMPTY, Some CHR ''o'']], totalPlacements = 2\<rparr>, 4)"
    by (simp add: run_eval)
  have "is_run [Some CHR ''t'', Some CHR ''o''] 0 2 \<and> spelled [Some CHR ''t'', Some CHR ''o''] 0 2 = ''to''"
    by (simp add: is_run_def spelled_def to_str_def atLeastLessThan_nat_numeral atLeastLessThanSuc)
  with run grid_always_valid [OF run] show ?thesis by simp
qed

subsection \<open>What a cycle evaluates\<close>

lemma cycle_outcome:
  assumes "wf_board b" and "draw rnd k WORDS = Some word"
  shows "cycle WORDS rnd (b, k) =
     (case filter (\<lambda>(horizontal, r, c). isValidPlacement WORDS horizontal r c word b = (Inr True, b))
             (horizontal_starts (size_b b) word @ vertical_starts (size_b b) word) of
        [] \<Rightarrow> Inr (b, k + 1)
      | p # ps \<Rightarrow>
          (case draw rnd (k + 1) (p # ps) of
             None \<Rightarrow> Inl TypeError
           | Some (horizontal, r, c) \<Rightarrow> Inr (snd (actuallyPlaceWord word horizontal r c b), k + 2)))"
proof -
  let ?starts = "horizontal_starts (size_b b) word @ vertical_starts (size_b b) word"
  let ?valid = "filter (\<lambda>(horizontal, r, c). isValidPlacement WORDS horizontal r c word b = (Inr True, b)) ?starts"
  have lenb: "length (tiles b) = size_b b" using assms(1) by (simp add: wf_board_def)
  have "\<forall>p\<in>set ?starts. feasible (size_b b) word p" using starts_feasible by blast
  from collect_all[OF lenb this, of WORDS "[]"]
  have col: "collect WORDS word ?starts [] b = (Inr ?valid, b)" by simp
  show ?thesis
  proof (cases ?valid)
    case Nil
    with assms(2) col show ?thesis by (simp add: cycle_def)
  next
    case (Cons p ps)
    show ?thesis
    proof (cases "draw rnd (k + 1) ?valid")
      case None
      with assms(2) col Cons show ?thesis by (simp add: cycle_def)
    next
      case (Some q)
      obtain horizontal r c where q: "q = (horizontal, r, c)" by (cases q) auto
      from draw_in_set[OF Some] q
      have v: "isValidPlacement WORDS horizontal r c word b = (Inr True, b)" by auto
      from commit_valid[OF assms(1) v] obtain b' where
        a: "actuallyPlaceWord word horizontal r c b = (Inr (), b')" by blast
      have "cycle WORDS rnd (b, k) = Inr (b', k + 2)"
        using assms(2) col Cons Some q a by (simp add: cycle_def)
      moreover have "(case ?valid of [] \<Rightarrow> Inr (b, k + 1)
          | p # ps \<Rightarrow> (case draw rnd (k + 1) (p # ps) of None \<Rightarrow> Inl TypeError
               | Some (horizontal, r, c) \<Rightarrow> Inr (snd (actuallyPlaceWord word horizontal r c b), k + 2)))
          = Inr (b', k + 2)"
        using Cons Some q a by simp
      ultimately show ?thesis by simp
    qed
  qed
qed

lemma draw_pick:
  assumes "i < length xs"
  shows "draw (rnd(k := real i / real (length xs))) k xs = Some (xs ! i)"
proof -
  have "real (length xs) \<noteq> 0" using assms by auto
  then have "real i / real (length xs) * real (length xs) = real i" by simp
  then have "\<lfloor>real i / real (length xs) * real (length xs)\<rfloor> = int i" by simp
  with assms show ?thesis by (simp add: draw_def index_def)
qed

lemma cycle_can_commit:
  assumes "wf_board b" and "draw rnd k WORDS = Some word"
      and "feasible (size_b b) word (horizontal, r, c)"
      and "isValidPlacement WORDS horizontal r c word b = (Inr True, b)"
  shows "\<exists>u. 0 \<le> u \<and> u < 1 \<and>
           cycle WORDS (rnd(k + 1 := u)) (b, k) =
             Inr (snd (actuallyPlaceWord word horizontal r c b), k + 2)"
proof -
  define starts where "starts = horizontal_starts (size_b b) word @ vertical_starts (size_b b) word"
  define valid where
    "valid = filter (\<lambda>(horizontal, r, c). isValidPlacement WORDS horizontal r c word b = (Inr True, b)) starts"
  have "(horizontal, r, c) \<in> set starts"
    unfolding starts_def using assms(3) starts_feasible by blast
  with assms(4) have "(horizontal, r, c) \<in> set valid" by (simp add: valid_def)
  then have "\<exists>i<length valid. valid ! i = (horizontal, r, c)"
    by (simp only: in_set_conv_nth)
  then obtain i where i: "i < length valid" and p: "valid ! i = (horizontal, r, c)"
    by blast
  define u where "u = real i / real (length valid)"
  define rnd' where "rnd' = rnd(k + 1 := u)"
  have "0 < length valid" using i by linarith
  then have "0 < real (length valid)" by (simp only: of_nat_0_less_iff)
  then have "real i / real (length valid) < 1 \<longleftrightarrow> real i < real (length valid)"
    by (rule divide_less_eq_1_pos)
  with i have u: "0 \<le> u \<and> u < 1" by (simp add: u_def)
  have w: "draw rnd' k WORDS = Some word" using assms(2) by (simp add: draw_def rnd'_def)
  have d: "draw rnd' (k + 1) valid = Some (horizontal, r, c)"
    using draw_pick[OF i, of rnd "k + 1"] p by (simp add: u_def rnd'_def)
  obtain q qs where ne: "valid = q # qs" using i by (cases valid) auto
  have "cycle WORDS rnd' (b, k) =
      (case valid of [] \<Rightarrow> Inr (b, k + 1)
       | q # qs \<Rightarrow> (case draw rnd' (k + 1) (q # qs) of None \<Rightarrow> Inl TypeError
            | Some (horizontal, r, c) \<Rightarrow> Inr (snd (actuallyPlaceWord word horizontal r c b), k + 2)))"
    unfolding valid_def starts_def by (rule cycle_outcome[OF assms(1) w])
  also have "\<dots> = (case draw rnd' (k + 1) valid of None \<Rightarrow> Inl TypeError
            | Some (horizontal, r, c) \<Rightarrow> Inr (snd (actuallyPlaceWord word horizontal r c b), k + 2))"
    by (simp add: ne)
  also have "\<dots> = Inr (snd (actuallyPlaceWord word horizontal r c b), k + 2)"
    by (simp only: d option.case prod.case)
  finally show ?thesis using u unfolding rnd'_def by blast
qed

text \<open>
  C6: the placements a trial cycle evaluates are exactly the geometrically feasible ones.
  The start positions the cycle enumerates are the feasible ones; on a well-formed board the
  validator is run on each of them and the valid ones are kept in order; the outcome of the
  cycle is fixed by those verdicts: the board is returned as it was when no feasible placement
  is valid, and otherwise the placement drawn among the valid feasible ones is committed, so
  that every valid feasible placement is committed for some value of the draw and no other
  placement ever is. For a word longer than the board there is no start position, and the
  cycle returns the board as it was, without error.
\<close>

theorem cycle_candidates:
  "(p \<in> set (horizontal_starts n word @ vertical_starts n word) \<longleftrightarrow> feasible n word p) \<and>
   (wf_board b \<longrightarrow>
      collect WORDS word (horizontal_starts (size_b b) word @ vertical_starts (size_b b) word) [] b =
        (Inr (filter (\<lambda>(horizontal, r, c). isValidPlacement WORDS horizontal r c word b = (Inr True, b))
                (horizontal_starts (size_b b) word @ vertical_starts (size_b b) word)), b)) \<and>
   (wf_board b \<and> draw rnd k WORDS = Some word \<longrightarrow>
      cycle WORDS rnd (b, k) =
        (case filter (\<lambda>(horizontal, r, c). isValidPlacement WORDS horizontal r c word b = (Inr True, b))
                (horizontal_starts (size_b b) word @ vertical_starts (size_b b) word) of
           [] \<Rightarrow> Inr (b, k + 1)
         | q # qs \<Rightarrow>
             (case draw rnd (k + 1) (q # qs) of
                None \<Rightarrow> Inl TypeError
              | Some (horizontal, r, c) \<Rightarrow>
                  Inr (snd (actuallyPlaceWord word horizontal r c b), k + 2)))) \<and>
   (wf_board b \<and> draw rnd k WORDS = Some word \<and> feasible (size_b b) word (h, r, c) \<and>
    isValidPlacement WORDS h r c word b = (Inr True, b) \<longrightarrow>
      (\<exists>u. 0 \<le> u \<and> u < 1 \<and>
         cycle WORDS (rnd(k + 1 := u)) (b, k) = Inr (snd (actuallyPlaceWord word h r c b), k + 2))) \<and>
   (n < length word \<longrightarrow> horizontal_starts n word @ vertical_starts n word = []) \<and>
   (size_b b < length word \<and> draw rnd k WORDS = Some word \<longrightarrow> cycle WORDS rnd (b, k) = Inr (b, k + 1))"
proof (intro conjI impI)
  show "p \<in> set (horizontal_starts n word @ vertical_starts n word) \<longleftrightarrow> feasible n word p"
    by (rule starts_feasible)
next
  assume "wf_board b"
  then have "length (tiles b) = size_b b" by (simp add: wf_board_def)
  moreover have "\<forall>p\<in>set (horizontal_starts (size_b b) word @ vertical_starts (size_b b) word).
                   feasible (size_b b) word p"
    using starts_feasible by blast
  ultimately show "collect WORDS word (horizontal_starts (size_b b) word @ vertical_starts (size_b b) word) [] b =
        (Inr (filter (\<lambda>(horizontal, r, c). isValidPlacement WORDS horizontal r c word b = (Inr True, b))
                (horizontal_starts (size_b b) word @ vertical_starts (size_b b) word)), b)"
    using collect_all[of b "horizontal_starts (size_b b) word @ vertical_starts (size_b b) word" word WORDS "[]"]
    by simp
next
  assume "wf_board b \<and> draw rnd k WORDS = Some word"
  then show "cycle WORDS rnd (b, k) =
        (case filter (\<lambda>(horizontal, r, c). isValidPlacement WORDS horizontal r c word b = (Inr True, b))
                (horizontal_starts (size_b b) word @ vertical_starts (size_b b) word) of
           [] \<Rightarrow> Inr (b, k + 1)
         | q # qs \<Rightarrow>
             (case draw rnd (k + 1) (q # qs) of
                None \<Rightarrow> Inl TypeError
              | Some (horizontal, r, c) \<Rightarrow>
                  Inr (snd (actuallyPlaceWord word horizontal r c b), k + 2)))"
    using cycle_outcome by blast
next
  assume "wf_board b \<and> draw rnd k WORDS = Some word \<and> feasible (size_b b) word (h, r, c) \<and>
    isValidPlacement WORDS h r c word b = (Inr True, b)"
  then show "\<exists>u. 0 \<le> u \<and> u < 1 \<and>
         cycle WORDS (rnd(k + 1 := u)) (b, k) = Inr (snd (actuallyPlaceWord word h r c b), k + 2)"
    using cycle_can_commit by blast
next
  assume "n < length word"
  then show "horizontal_starts n word @ vertical_starts n word = []"
    by (rule starts_too_long)
next
  assume h: "size_b b < length word \<and> draw rnd k WORDS = Some word"
  then have "horizontal_starts (size_b b) word @ vertical_starts (size_b b) word = []"
    using starts_too_long by blast
  with h show "cycle WORDS rnd (b, k) = Inr (b, k + 1)"
    by (simp add: cycle_def)
qed

theorem cycle_candidates_witness:
  "(False, 0, 1) \<in> set (horizontal_starts 2 ''to'' @ vertical_starts 2 ''to'') \<and>
   (False, 1, 1) \<notin> set (horizontal_starts 2 ''to'' @ vertical_starts 2 ''to'') \<and>
   cycle [''at'', ''to''] (\<lambda>_. 1 / 2)
     (\<lparr>size_b = 2, tiles = [[Some CHR ''a'', Some CHR ''t''], [EMPTY, EMPTY]], totalPlacements = 1\<rparr>, 0) =
     Inr (\<lparr>size_b = 2, tiles = [[Some CHR ''a'', Some CHR ''t''], [EMPTY, Some CHR ''o'']], totalPlacements = 2\<rparr>, 2) \<and>
   horizontal_starts 2 ''cat'' @ vertical_starts 2 ''cat'' = [] \<and>
   cycle [''cat''] (\<lambda>_. 0) (empty_board 2, 0) = Inr (empty_board 2, 1)"
proof -
  let ?b1 = "\<lparr>size_b = 2, tiles = [[Some CHR ''a'', Some CHR ''t''], [EMPTY, EMPTY]], totalPlacements = 1\<rparr>"
  let ?W = "[''at'', ''to'']"
  let ?rnd = "\<lambda>k::nat. 1 / 2 :: real"
  have f1: "feasible 2 ''to'' (False, 0, 1)" and f2: "\<not> feasible 2 ''to'' (False, 1, 1)"
    by (simp_all add: feasible_def)
  have m1: "(False, 0, 1) \<in> set (horizontal_starts 2 ''to'' @ vertical_starts 2 ''to'')"
    using f1 cycle_candidates [of "(False, 0, 1)" 2 "''to''" ?b1 ?W ?rnd 0 False 0 1] by blast
  have m2: "(False, 1, 1) \<notin> set (horizontal_starts 2 ''to'' @ vertical_starts 2 ''to'')"
    using f2 cycle_candidates [of "(False, 1, 1)" 2 "''to''" ?b1 ?W ?rnd 0 False 0 1] by blast
  have w: "wf_board ?b1" by (simp add: wf_board_def)
  have dr: "draw ?rnd 0 ?W = Some ''to''" by (simp add: draw_def index_def)
  have c: "cycle ?W ?rnd (?b1, 0) =
        (case filter (\<lambda>(horizontal, r, c). isValidPlacement ?W horizontal r c ''to'' ?b1 = (Inr True, ?b1))
                (horizontal_starts (size_b ?b1) ''to'' @ vertical_starts (size_b ?b1) ''to'') of
           [] \<Rightarrow> Inr (?b1, 0 + 1)
         | q # qs \<Rightarrow>
             (case draw ?rnd (0 + 1) (q # qs) of
                None \<Rightarrow> Inl TypeError
              | Some (horizontal, r, c) \<Rightarrow>
                  Inr (snd (actuallyPlaceWord ''to'' horizontal r c ?b1), 0 + 2)))"
    using w dr cycle_candidates [of "(False, 0, 1)" 2 "''to''" ?b1 ?W ?rnd 0 False 0 1] by blast
  have e: "cycle ?W ?rnd (?b1, 0) =
     Inr (\<lparr>size_b = 2, tiles = [[Some CHR ''a'', Some CHR ''t''], [EMPTY, Some CHR ''o'']], totalPlacements = 2\<rparr>, 2)"
    unfolding c
    by (simp add: draw_def index_def horizontal_starts_def vertical_starts_def upto.simps
          isValidPlacement_def scan_loop.simps sr_loop.simps sc_loop.simps getWordMask_def
          getDeltas_def tile_at_def letter_def WORD_SET_def to_str_def actuallyPlaceWord_def
          place_loop.simps set_tile_def write_at_def numeral_2_eq_2)
  have d: "size_b (empty_board 2) < length ''cat'' \<and> draw (\<lambda>_. 0) 0 [''cat''] = Some ''cat''"
    by (simp add: empty_board_def draw_def index_def)
  have l: "(2::nat) < length ''cat''" by simp
  show ?thesis
    using m1 m2 e d l
      cycle_candidates [of "(False, 1, 3)" 2 "''cat''" "empty_board 2" "[''cat'']" "\<lambda>_. 0" 0 False 0 0]
    by simp
qed

subsection \<open>Commits only add letters\<close>

lemma commit_keeps:
  assumes "isValidPlacement WORDS horizontal r c word b = (Inr True, b)"
      and "tile_at (tiles b) sr sc \<noteq> Inr EMPTY"
  shows "tile_at (tiles (snd (actuallyPlaceWord word horizontal r c b))) sr sc = tile_at (tiles b) sr sc"
proof (cases "sr < length (tiles b)")
  case False
  have "length (tiles (snd (actuallyPlaceWord word horizontal r c b))) = length (tiles b)"
    unfolding commit_tiles using place_loop_length[of "tiles b" "getDeltas horizontal" r c word 0]
    by (metis prod.collapse)
  with False show ?thesis by (simp add: tile_at_def)
next
  case True
  let ?d = "getDeltas horizontal"
  have fits: "\<And>j. j < length word \<Longrightarrow>
      tile_at (tiles b) (r + fst ?d * j) (c + snd ?d * j) = Inr EMPTY \<or>
      tile_at (tiles b) (r + fst ?d * j) (c + snd ?d * j) = Inr (letter word j)"
    using valid_fits[OF assms(1)] by (simp add: fits_def tile_under_def)
  have "getWordMask b horizontal r c word sr sc = tile_at (tiles b) sr sc"
  proof (cases horizontal)
    case h: True
    show ?thesis
    proof (cases "sr \<noteq> r \<or> sc < c \<or> sc \<ge> c + length word")
      case True
      with h show ?thesis by (simp add: getWordMask_def)
    next
      case False
      then have j: "sc - c < length word" and pos: "sr = r" "sc = c + (sc - c)" by auto
      from fits[OF j] h pos assms(2) have "tile_at (tiles b) sr sc = Inr (letter word (sc - c))"
        by (simp add: getDeltas_def)
      with False h show ?thesis by (simp add: getWordMask_def)
    qed
  next
    case v: False
    show ?thesis
    proof (cases "sc \<noteq> c \<or> sr < r \<or> sr \<ge> r + length word")
      case True
      with v show ?thesis by (simp add: getWordMask_def)
    next
      case False
      then have j: "sr - r < length word" and pos: "sc = c" "sr = r + (sr - r)" by auto
      from fits[OF j] v pos assms(2) have "tile_at (tiles b) sr sc = Inr (letter word (sr - r))"
        by (simp add: getDeltas_def)
      with False v show ?thesis by (simp add: getWordMask_def)
    qed
  qed
  with commit_is_mask[OF True, of horizontal r c word sc] show ?thesis by simp
qed

lemma filter_mono_all2:
  "list_all2 (\<lambda>x y. x \<noteq> EMPTY \<longrightarrow> y \<noteq> EMPTY) xs ys
   \<Longrightarrow> length (filter (\<lambda>char. char \<noteq> EMPTY) xs) \<le> length (filter (\<lambda>char. char \<noteq> EMPTY) ys)"
  by (induction rule: list_all2_induct) auto

lemma sum_list_mono_all2:
  "list_all2 (\<lambda>x y. f x \<le> (f y :: nat)) xs ys \<Longrightarrow> sum_list (map f xs) \<le> sum_list (map f ys)"
  by (induction rule: list_all2_induct) auto

lemma occupied_mono:
  assumes "wf_board b" and "wf_board b'" and "size_b b' = size_b b"
      and "\<And>sr sc. tile_at (tiles b) sr sc \<noteq> Inr EMPTY \<Longrightarrow> tile_at (tiles b') sr sc = tile_at (tiles b) sr sc"
  shows "occupied (tiles b) \<le> occupied (tiles b')"
proof -
  let ?n = "size_b b"
  have len: "length (tiles b) = ?n" "length (tiles b') = ?n"
    using assms(1,2,3) by (simp_all add: wf_board_def)
  have rows: "length (tiles b ! sr) = ?n" "length (tiles b' ! sr) = ?n" if "sr < ?n" for sr
    using assms(1,2,3) that len by (simp_all add: wf_board_def)
  have "list_all2 (\<lambda>x y. x \<noteq> EMPTY \<longrightarrow> y \<noteq> EMPTY) (tiles b ! sr) (tiles b' ! sr)" if sr: "sr < ?n" for sr
  proof (rule list_all2_all_nthI)
    show "length (tiles b ! sr) = length (tiles b' ! sr)" using rows[OF sr] by simp
  next
    fix sc assume "sc < length (tiles b ! sr)"
    then have sc: "sc < ?n" using rows[OF sr] by simp
    show "tiles b ! sr ! sc \<noteq> EMPTY \<longrightarrow> tiles b' ! sr ! sc \<noteq> EMPTY"
    proof
      assume ne: "tiles b ! sr ! sc \<noteq> EMPTY"
      have 1: "tile_at (tiles b) sr sc = Inr (tiles b ! sr ! sc)"
        using wf_tile_at[OF assms(1) sr sc] .
      have 2: "tile_at (tiles b') sr sc = Inr (tiles b' ! sr ! sc)"
        using wf_tile_at[OF assms(2)] sr sc assms(3) by simp
      from ne 1 have "tile_at (tiles b) sr sc \<noteq> Inr EMPTY" by simp
      from assms(4)[OF this] 1 2 ne show "tiles b' ! sr ! sc \<noteq> EMPTY" by simp
    qed
  qed
  then have "list_all2 (\<lambda>x y. length (filter (\<lambda>char. char \<noteq> EMPTY) x) \<le> length (filter (\<lambda>char. char \<noteq> EMPTY) y))
               (tiles b) (tiles b')"
    using len by (intro list_all2_all_nthI) (simp_all add: filter_mono_all2)
  then show ?thesis
    unfolding occupied_def by (rule sum_list_mono_all2)
qed

lemma density_mono:
  assumes "size_b b' = size_b b" and "occupied (tiles b) \<le> occupied (tiles b')"
  shows "density b \<le> density b'"
  using assms by (simp add: density_def divide_right_mono)

lemma cycle_keeps:
  assumes "wf_board b" and "cycle WORDS rnd (b, k) = Inr (b', k')"
  shows "(tile_at (tiles b) sr sc \<noteq> Inr EMPTY \<longrightarrow> tile_at (tiles b') sr sc = tile_at (tiles b) sr sc) \<and>
         density b \<le> density b'"
proof -
  from cycle_step[OF assms] show ?thesis
  proof
    assume "b' = b \<and> k' = k + 1"
    then show ?thesis by simp
  next
    assume "\<exists>word horizontal r c. word \<in> set WORDS \<and>
            feasible (size_b b) word (horizontal, r, c) \<and>
            isValidPlacement WORDS horizontal r c word b = (Inr True, b) \<and>
            actuallyPlaceWord word horizontal r c b = (Inr (), b') \<and> k' = k + 2"
    then obtain word horizontal r c where
      v: "isValidPlacement WORDS horizontal r c word b = (Inr True, b)"
      and a: "actuallyPlaceWord word horizontal r c b = (Inr (), b')" by blast
    have keep: "tile_at (tiles b') x y = tile_at (tiles b) x y"
      if "tile_at (tiles b) x y \<noteq> Inr EMPTY" for x y
      using commit_keeps[OF v that] a by simp
    from commit_valid[OF assms(1) v] a have w: "wf_board b'" and n: "size_b b' = size_b b"
      by auto
    have "occupied (tiles b) \<le> occupied (tiles b')"
      using occupied_mono[OF assms(1) w n] keep by blast
    with density_mono[OF n] keep show ?thesis by blast
  qed
qed

text \<open>
  C5: between the grid after \<open>i\<close> cycles and the grid after \<open>j \<ge> i\<close> cycles of the same
  run, every tile that was not empty is unchanged: no commit overwrites a letter with a
  different one (a tile a committed word writes was empty or already held that letter), and
  none turns a letter back into an empty tile. Hence the density does not decrease.
\<close>

theorem commits_only_add:
  assumes "i \<le> j"
      and "makePuzzle WORDS rnd i (empty_board n, k) = Inr (bi, ki)"
      and "makePuzzle WORDS rnd j (empty_board n, k) = Inr (bj, kj)"
  shows "(tile_at (tiles bi) sr sc \<noteq> Inr EMPTY \<longrightarrow> tile_at (tiles bj) sr sc = tile_at (tiles bi) sr sc) \<and>
         density bi \<le> density bj"
  using assms(1,3)
proof (induction j arbitrary: bj kj)
  case 0
  with assms(2) show ?case by simp
next
  case (Suc j)
  show ?case
  proof (cases "i = Suc j")
    case True
    with Suc.prems(2) assms(2) show ?thesis by simp
  next
    case False
    with Suc.prems(1) have le: "i \<le> j" by simp
    from Suc.prems(2) obtain bm km where
      m: "makePuzzle WORDS rnd j (empty_board n, k) = Inr (bm, km)"
      and c: "cycle WORDS rnd (bm, km) = Inr (bj, kj)"
      by (auto simp: makePuzzle_Suc split: sum.splits)
    from run_invariant[OF m] have w: "wf_board bm" by simp
    from Suc.IH[OF le m] cycle_keeps[OF w c, of sr sc] show ?thesis by auto
  qed
qed

theorem commits_only_add_witness:
  "tile_at [[Some CHR ''a'', Some CHR ''t''], [EMPTY, Some CHR ''o'']] 0 1 = Inr (Some CHR ''t'') \<and>
   density \<lparr>size_b = 2, tiles = [[Some CHR ''a'', Some CHR ''t''], [EMPTY, EMPTY]], totalPlacements = 1\<rparr> = 1 / 2 \<and>
   density \<lparr>size_b = 2, tiles = [[Some CHR ''a'', Some CHR ''t''], [EMPTY, Some CHR ''o'']], totalPlacements = 2\<rparr> = 3 / 4 \<and>
   density \<lparr>size_b = 2, tiles = [[Some CHR ''a'', Some CHR ''t''], [EMPTY, EMPTY]], totalPlacements = 1\<rparr>
     \<le> density \<lparr>size_b = 2, tiles = [[Some CHR ''a'', Some CHR ''t''], [EMPTY, Some CHR ''o'']], totalPlacements = 2\<rparr>"
proof -
  let ?rnd = "\<lambda>k::nat. if k = 2 then 1 / 2 else (0::real)"
  let ?b1 = "\<lparr>size_b = 2, tiles = [[Some CHR ''a'', Some CHR ''t''], [EMPTY, EMPTY]], totalPlacements = 1\<rparr>"
  let ?b2 = "\<lparr>size_b = 2, tiles = [[Some CHR ''a'', Some CHR ''t''], [EMPTY, Some CHR ''o'']], totalPlacements = 2\<rparr>"
  have r1: "makePuzzle [''at'', ''to''] ?rnd 1 (empty_board 2, 0) = Inr (?b1, 2)"
    by (simp add: run_eval)
  have r2: "makePuzzle [''at'', ''to''] ?rnd 2 (empty_board 2, 0) = Inr (?b2, 4)"
    by (simp add: run_eval)
  have le: "(1::nat) \<le> 2" by simp
  have t: "tile_at (tiles ?b1) 0 1 \<noteq> Inr EMPTY" by (simp add: tile_at_def)
  have d: "density ?b1 = 1 / 2 \<and> density ?b2 = 3 / 4"
    by (simp add: density_def occupied_def)
  from commits_only_add [OF le r1 r2, of 0 1] t d show ?thesis
    by (simp add: tile_at_def)
qed

subsection \<open>The search when no word fits the board\<close>

lemma cycle_no_fit:
  assumes "draw rnd k WORDS = Some word" and "size_b b < length word"
  shows "cycle WORDS rnd (b, k) = Inr (b, k + 1)"
  using assms starts_too_long[of "size_b b" word] by (simp add: cycle_def)

lemma run_no_fit:
  assumes "\<forall>k. \<exists>word. draw rnd k WORDS = Some word \<and> n < length word"
  shows "makePuzzle WORDS rnd cycles (empty_board n, k) = Inr (empty_board n, k + cycles)"
proof (induction cycles)
  case 0
  then show ?case by (simp add: makePuzzle_0 empty_board_def)
next
  case (Suc cycles)
  from assms obtain word where "draw rnd (k + cycles) WORDS = Some word" "n < length word"
    by blast
  then have "cycle WORDS rnd (empty_board n, k + cycles) = Inr (empty_board n, k + cycles + 1)"
    by (intro cycle_no_fit) (simp_all add: empty_board_def)
  with Suc show ?case by (simp add: makePuzzle_Suc)
qed

text \<open>
  C8 says that the search returns the densest grid it generated, and a grid whenever it
  generated at least one. With the word list \<open>["cat"]\<close>, a board of size 2, a budget of one
  second and a clock that lets exactly one pass complete, the one board generated is the
  all-empty grid of density 0; \<open>density > bestDensity\<close> compares it with the initial
  \<open>bestDensity = 0\<close>, the board is not kept, and the search returns \<open>[null, 1]\<close>.
\<close>

theorem createBoard_null_after_pass:
  "createBoard [''cat''] (\<lambda>_. 0) (\<lambda>t. if t < 2 then 0 else 1000) 1 2 = Some (Inr (None, 1))"
proof -
  have "\<forall>k. \<exists>word. draw (\<lambda>_. 0) k [''cat''] = Some word \<and> 2 < length word"
    by (simp add: draw_def index_def)
  then have run: "Board [''cat''] (\<lambda>_. 0) 0 2 = Inr (empty_board 2, 50000)"
    using run_no_fit[of "\<lambda>_. 0" "[''cat'']" 2 50000 0] by (simp add: Board_def)
  have d: "density (empty_board 2) = 0"
    by (simp add: density_def occupied_def empty_board_def numeral_2_eq_2)
  show ?thesis
    unfolding createBoard_def
    by (subst createBoard_loop.simps, simp add: run d, subst createBoard_loop.simps, simp)
qed

end
